theory Spec2Isabelle
  imports Complex_Main "HOL-Library.Word"
begin

section \<open>Detecting spots of colour: the frame queue and the per-frame analysis\<close>

text \<open>
  The development follows \<^verbatim>\<open>Module4/Exercise 2/FindFaceAndColor.ipynb\<close>: the bounded
  queue \<^verbatim>\<open>frames = queue.Queue(maxsize = 10)\<close> that the camera loop fills, the class
  \<^verbatim>\<open>ImageProcessor\<close> whose \<^verbatim>\<open>run\<close> drains it and whose \<^verbatim>\<open>dowork\<close> analyses one frame,
  and the main cell that starts three such threads and stops them.
\<close>

subsection \<open>Errors\<close>

text \<open>
  Every exception the modelled code can raise is a value. \<^verbatim>\<open>WouldBlock\<close> stands for a
  call that would wait on a condition variable (\<^verbatim>\<open>Queue.get\<close> on an empty queue,
  \<^verbatim>\<open>Queue.put\<close> on a full one) instead of returning.
\<close>

datatype error = Empty | WouldBlock | ValueError | IndexError

subsection \<open>Frames\<close>

text \<open>
  A frame is a \<^verbatim>\<open>numpy\<close> array of shape (rows, columns, 3) and dtype \<^verbatim>\<open>uint8\<close>: a list of
  rows, each a list of pixels, each three 8-bit channels.
\<close>

type_synonym pixel = "8 word \<times> 8 word \<times> 8 word"
type_synonym frame = "pixel list list"

definition is_frame :: "nat \<Rightarrow> nat \<Rightarrow> frame \<Rightarrow> bool" where
  "is_frame h w f = (length f = h \<and> list_all (\<lambda>row. length row = w) f)"

subsection \<open>The standard library's bounded queue\<close>

text \<open>
  \<^verbatim>\<open>queue.Queue(maxsize)\<close>: a FIFO of items, its bound and the count of unfinished
  tasks that \<^verbatim>\<open>put\<close> increments and \<^verbatim>\<open>task_done\<close> decrements. \<^verbatim>\<open>maxsize <= 0\<close> means
  unbounded; \<^verbatim>\<open>full\<close> is \<^verbatim>\<open>0 < maxsize <= qsize\<close>.
\<close>

record 'a queue =
  items :: "'a list"
  maxsize :: nat
  unfinished_tasks :: nat

definition Queue :: "nat \<Rightarrow> 'a queue" where
  "Queue n = \<lparr>items = [], maxsize = n, unfinished_tasks = 0\<rparr>"

definition qsize :: "'a queue \<Rightarrow> nat" where
  "qsize q = length (items q)"

definition full :: "'a queue \<Rightarrow> bool" where
  "full q = (0 < maxsize q \<and> maxsize q \<le> qsize q)"

text \<open>\<^verbatim>\<open>get()\<close> waits while the queue is empty; \<^verbatim>\<open>get_nowait()\<close> raises \<^verbatim>\<open>Empty\<close>.\<close>

definition get :: "'a queue \<Rightarrow> error + ('a \<times> 'a queue)" where
  "get q = (case items q of
              [] \<Rightarrow> Inl WouldBlock
            | x # xs \<Rightarrow> Inr (x, q\<lparr>items := xs\<rparr>))"

definition get_nowait :: "'a queue \<Rightarrow> error + ('a \<times> 'a queue)" where
  "get_nowait q = (case items q of
                     [] \<Rightarrow> Inl Empty
                   | x # xs \<Rightarrow> Inr (x, q\<lparr>items := xs\<rparr>))"

text \<open>\<^verbatim>\<open>put(item)\<close> waits while the queue is full.\<close>

definition put :: "'a queue \<Rightarrow> 'a \<Rightarrow> error + 'a queue" where
  "put q x = (if full q then Inl WouldBlock
              else Inr (q\<lparr>items := items q @ [x],
                          unfinished_tasks := Suc (unfinished_tasks q)\<rparr>))"

text \<open>\<^verbatim>\<open>task_done()\<close> raises \<^verbatim>\<open>ValueError\<close> when called more often than items were put.\<close>

definition task_done :: "'a queue \<Rightarrow> error + 'a queue" where
  "task_done q = (if unfinished_tasks q = 0 then Inl ValueError
                  else Inr (q\<lparr>unfinished_tasks := unfinished_tasks q - 1\<rparr>))"

subsection \<open>The locked block of the camera loop\<close>

text \<open>
  Lines 302 to 308 of the notebook, between \<^verbatim>\<open>lock.acquire()\<close> and \<^verbatim>\<open>lock.release()\<close>:
  \<^verbatim>\<open>
    if frames.full():
        frames.get()
        frames.task_done()
    else:
        frames.put(freshest_frame)
  \<close>
\<close>

definition push_block :: "'a queue \<Rightarrow> 'a \<Rightarrow> error + 'a queue" where
  "push_block q freshest_frame =
     (if full q then
        (case get q of
           Inl e \<Rightarrow> Inl e
         | Inr (_, q') \<Rightarrow> task_done q')
      else put q freshest_frame)"

text \<open>The camera loop pushes one captured frame after the other.\<close>

fun push_all :: "'a queue \<Rightarrow> 'a list \<Rightarrow> error + 'a queue" where
  "push_all q [] = Inr q"
| "push_all q (f # fs) =
     (case push_block q f of Inl e \<Rightarrow> Inl e | Inr q' \<Rightarrow> push_all q' fs)"

text \<open>
  The queue invariant that the block maintains: there are at least as many unfinished
  tasks as items (every item was put and not yet marked done).
\<close>

definition queue_inv :: "'a queue \<Rightarrow> bool" where
  "queue_inv q = (maxsize q = 10 \<and> qsize q \<le> 10 \<and> qsize q \<le> unfinished_tasks q)"

subsection \<open>NumPy operations used by the analysis\<close>

text \<open>
  NumPy computes the colour distances in IEEE 754 double precision (\<^verbatim>\<open>float64\<close>). A value
  is a finite number, an infinity or NaN; a finite value is carried as the real number
  it denotes. The sign of zero is not kept: the comparisons of \<^verbatim>\<open>argmin\<close> treat both
  zeros alike.
\<close>

datatype float64 = Finite real | PInf | NInf | NaN

text \<open>
  \<open>f64_round\<close> rounds a real number to the nearest double, a tie going to the even
  mantissa. The doubles around \<open>x\<close> are the multiples of 2 to the power of the exponent
  of \<open>x\<close> minus 52; the exponent is at least -1022 (below that the numbers are subnormal
  and keep the spacing 2 to the power of -1074), and a result of magnitude at least 2 to
  the power of 1024 overflows to an infinity.
\<close>

definition round_half_even :: "real \<Rightarrow> int" where
  "round_half_even y =
     (let f = \<lfloor>y\<rfloor> in
      if y - of_int f < 1 / 2 then f
      else if 1 / 2 < y - of_int f then f + 1
      else if even f then f else f + 1)"

definition f64_exponent :: "real \<Rightarrow> int" where
  "f64_exponent x = max (- 1022) \<lfloor>log 2 \<bar>x\<bar>\<rfloor>"

definition f64_huge :: real where
  "f64_huge = 2 ^ 1024"

definition f64_round :: "real \<Rightarrow> float64" where
  "f64_round x =
     (if x = 0 then Finite 0
      else let u = 2 powi (f64_exponent x - 52);
               y = of_int (round_half_even (x / u)) * u
           in if f64_huge \<le> y then PInf else if y \<le> - f64_huge then NInf else Finite y)"

text \<open>
  The arithmetic of the distance: subtraction, addition and square root are the
  correctly rounded operations of IEEE 754, and \<^verbatim>\<open>np.power(x, 2)\<close> is taken as the correctly
  rounded square, the product of \<open>x\<close> with itself. An integer is converted to the nearest
  double (exactly, below 2 to the power of 53).
\<close>

fun f64_sub :: "float64 \<Rightarrow> float64 \<Rightarrow> float64" where
  "f64_sub NaN b = NaN"
| "f64_sub a NaN = NaN"
| "f64_sub (Finite a) (Finite b) = f64_round (a - b)"
| "f64_sub (Finite a) PInf = NInf"
| "f64_sub (Finite a) NInf = PInf"
| "f64_sub PInf PInf = NaN"
| "f64_sub PInf b = PInf"
| "f64_sub NInf NInf = NaN"
| "f64_sub NInf b = NInf"

fun f64_add :: "float64 \<Rightarrow> float64 \<Rightarrow> float64" where
  "f64_add NaN b = NaN"
| "f64_add a NaN = NaN"
| "f64_add (Finite a) (Finite b) = f64_round (a + b)"
| "f64_add PInf NInf = NaN"
| "f64_add NInf PInf = NaN"
| "f64_add PInf b = PInf"
| "f64_add a PInf = PInf"
| "f64_add NInf b = NInf"
| "f64_add a NInf = NInf"

fun f64_square :: "float64 \<Rightarrow> float64" where
  "f64_square (Finite a) = f64_round (a * a)"
| "f64_square PInf = PInf"
| "f64_square NInf = PInf"
| "f64_square NaN = NaN"

fun f64_sqrt :: "float64 \<Rightarrow> float64" where
  "f64_sqrt (Finite a) = (if a < 0 then NaN else f64_round (sqrt a))"
| "f64_sqrt PInf = PInf"
| "f64_sqrt NInf = NaN"
| "f64_sqrt NaN = NaN"

definition f64_of_int :: "int \<Rightarrow> float64" where
  "f64_of_int n = f64_round (of_int n)"

text \<open>
  \<^verbatim>\<open>sum(axis = 1)\<close> over a row of fewer than eight numbers adds them from left to right
  (NumPy starts from 0, and 0 plus the first number is that number).
\<close>

definition f64_sum :: "float64 list \<Rightarrow> float64" where
  "f64_sum xs = (case xs of [] \<Rightarrow> Finite 0 | x # ys \<Rightarrow> foldl f64_add x ys)"

text \<open>
  The comparisons \<^verbatim>\<open>>=\<close>, \<^verbatim>\<open><=\<close> and \<^verbatim>\<open><\<close> of doubles: each is false as soon as one side is
  NaN.
\<close>

fun f64_ge :: "float64 \<Rightarrow> float64 \<Rightarrow> bool" where
  "f64_ge NaN b = False"
| "f64_ge a NaN = False"
| "f64_ge (Finite a) (Finite b) = (b \<le> a)"
| "f64_ge a NInf = True"
| "f64_ge PInf b = True"
| "f64_ge a PInf = False"
| "f64_ge NInf b = False"

definition f64_le :: "float64 \<Rightarrow> float64 \<Rightarrow> bool" where
  "f64_le a b = f64_ge b a"

definition f64_less :: "float64 \<Rightarrow> float64 \<Rightarrow> bool" where
  "f64_less a b = (a \<noteq> NaN \<and> b \<noteq> NaN \<and> \<not> f64_ge a b)"

definition f64_nonneg :: "float64 \<Rightarrow> bool" where
  "f64_nonneg a = (case a of Finite x \<Rightarrow> 0 \<le> x | PInf \<Rightarrow> True | _ \<Rightarrow> False)"

text \<open>
  \<^verbatim>\<open>ndarray.argmin()\<close> scans the array once and keeps the index of the smallest value seen
  so far: it replaces the best value by the next one unless the next one is \<^verbatim>\<open>>=\<close> the
  best, and it stops at the first NaN. On an empty array it raises \<^verbatim>\<open>ValueError\<close>.
\<close>

fun argmin_loop :: "float64 list \<Rightarrow> nat \<Rightarrow> nat \<Rightarrow> float64 \<Rightarrow> nat" where
  "argmin_loop [] i best v = best"
| "argmin_loop (y # ys) i best v =
     (if v = NaN then best
      else if \<not> f64_ge y v then argmin_loop ys (Suc i) i y
      else argmin_loop ys (Suc i) best v)"

definition argmin :: "float64 list \<Rightarrow> error + nat" where
  "argmin xs = (case xs of [] \<Rightarrow> Inl ValueError | x # ys \<Rightarrow> Inr (argmin_loop ys 1 0 x))"

text \<open>\<^verbatim>\<open>np.nonzero\<close> of a one-dimensional array: the indices of its nonzero entries, ascending.\<close>

definition nonzero :: "nat list \<Rightarrow> nat list" where
  "nonzero xs = filter (\<lambda>i. xs ! i \<noteq> 0) [0..<length xs]"

text \<open>
  \<^verbatim>\<open>np.min\<close> and \<^verbatim>\<open>np.max\<close> raise \<^verbatim>\<open>ValueError\<close> (zero-size array to reduction operation
  which has no identity) on an empty argument.
\<close>

definition np_min :: "nat list \<Rightarrow> error + nat" where
  "np_min xs = (case xs of [] \<Rightarrow> Inl ValueError | x # ys \<Rightarrow> Inr (fold min ys x))"

definition np_max :: "nat list \<Rightarrow> error + nat" where
  "np_max xs = (case xs of [] \<Rightarrow> Inl ValueError | x # ys \<Rightarrow> Inr (fold max ys x))"

text \<open>\<^verbatim>\<open>a.reshape((h, w))\<close> of a one-dimensional array, row-major; the sizes must agree.\<close>

definition reshape2 :: "nat \<Rightarrow> nat \<Rightarrow> 'a list \<Rightarrow> error + 'a list list" where
  "reshape2 h w xs =
     (if length xs \<noteq> h * w then Inl ValueError
      else Inr (map (\<lambda>r. take w (drop (r * w) xs)) [0..<h]))"

text \<open>Sums of a boolean matrix along axis 1 (one count per row) and axis 0 (per column).\<close>

definition sum_axis1 :: "bool list list \<Rightarrow> nat list" where
  "sum_axis1 m = map (\<lambda>row. length (filter id row)) m"

definition sum_axis0 :: "bool list list \<Rightarrow> nat list" where
  "sum_axis0 m = (case m of
                    [] \<Rightarrow> []
                  | r # _ \<Rightarrow> map (\<lambda>c. length (filter (\<lambda>row. row ! c) m)) [0..<length r])"

text \<open>
  Assignments to a column or a row of a frame through a slice and an integer index,
  \<^verbatim>\<open>output[r0:r1, c, :] = v\<close> and \<^verbatim>\<open>output[r, c0:c1, :] = v\<close>: the slice is clipped to
  the array, the integer index raises \<^verbatim>\<open>IndexError\<close> when it is out of bounds. The
  value is cast to \<^verbatim>\<open>uint8\<close>.
\<close>

definition width :: "frame \<Rightarrow> nat" where
  "width f = (case f of [] \<Rightarrow> 0 | row # _ \<Rightarrow> length row)"

definition assign_col :: "frame \<Rightarrow> nat \<Rightarrow> nat \<Rightarrow> nat \<Rightarrow> pixel \<Rightarrow> error + frame" where
  "assign_col f r0 r1 c v =
     (if width f \<le> c then Inl IndexError
      else Inr (map (\<lambda>r. if r0 \<le> r \<and> r < r1 then (f ! r)[c := v] else f ! r)
                    [0..<length f]))"

definition assign_row :: "frame \<Rightarrow> nat \<Rightarrow> nat \<Rightarrow> nat \<Rightarrow> pixel \<Rightarrow> error + frame" where
  "assign_row f r c0 c1 v =
     (if length f \<le> r then Inl IndexError
      else Inr (f[r := map (\<lambda>c. if c0 \<le> c \<and> c < c1 then v else f ! r ! c)
                              [0..<length (f ! r)] ]))"

type_synonym color = "int \<times> int \<times> int"

definition as_uint8 :: "color \<Rightarrow> pixel" where
  "as_uint8 col = (case col of (r, g, b) \<Rightarrow> (word_of_int r, word_of_int g, word_of_int b))"

subsection \<open>Objects and references\<close>

text \<open>
  Frames are mutable arrays that the code passes by reference. The store is the list
  of all frame objects allocated so far, a reference is an index into it, and a new
  object is appended. \<^verbatim>\<open>array.copy()\<close> allocates a new object with the same contents.
\<close>

type_synonym addr = nat
type_synonym heap = "frame list"

definition alloc :: "heap \<Rightarrow> frame \<Rightarrow> heap \<times> addr" where
  "alloc H f = (H @ [f], length H)"

definition np_copy :: "heap \<Rightarrow> addr \<Rightarrow> heap \<times> addr" where
  "np_copy H a = alloc H (H ! a)"

subsection \<open>The libraries outside the repository\<close>

text \<open>
  A fitted \<^verbatim>\<open>sklearn.cluster.KMeans\<close>: \<^verbatim>\<open>cluster_centers_\<close> has one row of five numbers per
  cluster, \<^verbatim>\<open>labels_\<close> one cluster index per sample. The fit itself (random
  initialisation, Lloyd iterations) is outside the repository and is a parameter of
  the model, as is the resampling of \<^verbatim>\<open>PIL.Image.resize\<close>.
\<close>

record kmeans =
  cluster_centers :: "real list list"
  labels :: "nat list"

record externals =
  pil_resize :: "frame \<Rightarrow> nat \<Rightarrow> nat \<Rightarrow> frame"
  kmeans_fit :: "int list list \<Rightarrow> kmeans"

subsection \<open>The image processor\<close>

text \<open>The fields of \<^verbatim>\<open>ImageProcessor\<close> that \<^verbatim>\<open>dowork\<close> reads, and the global threshold.\<close>

record image_processor =
  target_color :: color
  border_color :: color

definition color_threshold :: real where
  "color_threshold = 7 / 100"

text \<open>
  \<^verbatim>\<open>self.verticals = np.array(80 * [np.arange(0, 60)]).T\<close> and
  \<^verbatim>\<open>self.horizontals = np.array(60 * [np.arange(0, 80)])\<close>, each then given a third axis
  of length one.
\<close>

definition verticals :: "int list list list" where
  "verticals = map (map (\<lambda>x. [x])) (transpose (replicate 80 (map int [0..<60])))"

definition horizontals :: "int list list list" where
  "horizontals = map (map (\<lambda>x. [x])) (replicate 60 (map int [0..<80]))"

text \<open>\<^verbatim>\<open>resizeNPArray\<close> hands the array to PIL and back.\<close>

definition resizeNPArray :: "externals \<Rightarrow> frame \<Rightarrow> nat \<Rightarrow> nat \<Rightarrow> frame" where
  "resizeNPArray ext array w h = pil_resize ext array w h"

text \<open>
  Lines 194 and 195: the colour channels of each pixel followed by its row and its
  column, as 4800 rows of five numbers.
\<close>

definition image_and_positions :: "frame \<Rightarrow> int list list list" where
  "image_and_positions array =
     map (\<lambda>(arow, vrow, hrow).
            map (\<lambda>((r, g, b), v, h). [uint r, uint g, uint b] @ v @ h)
                (zip arow (zip vrow hrow)))
         (zip array (zip verticals horizontals))"

definition reshaped :: "frame \<Rightarrow> int list list" where
  "reshaped array = concat (image_and_positions array)"

text \<open>
  Lines 200 and 208 to 210: the cluster whose colour is closest to the target.
  \<^verbatim>\<open>rgb_centers - self.target_color\<close> converts the target, an array of three integers, to
  doubles and subtracts it from every row of \<^verbatim>\<open>rgb_centers\<close>; the rows must have three
  columns, or one column that is then repeated, and the subtraction raises \<^verbatim>\<open>ValueError\<close>
  otherwise. The entries of \<^verbatim>\<open>cluster_centers_\<close> are doubles, given by their values.
\<close>

definition rgb_centers :: "kmeans \<Rightarrow> real list list" where
  "rgb_centers km = map (take 3) (cluster_centers km)"

definition diff :: "image_processor \<Rightarrow> kmeans \<Rightarrow> error + float64 list list" where
  "diff self km =
     (case target_color self of (tr, tg, tb) \<Rightarrow>
        if list_all (\<lambda>center. length center = 3) (rgb_centers km)
        then Inr (map (\<lambda>center. map2 f64_sub (map Finite center)
                                    [f64_of_int tr, f64_of_int tg, f64_of_int tb])
                      (rgb_centers km))
        else if list_all (\<lambda>center. length center = 1) (rgb_centers km)
        then Inr (map (\<lambda>center. map (f64_sub (Finite (center ! 0)))
                                    [f64_of_int tr, f64_of_int tg, f64_of_int tb])
                      (rgb_centers km))
        else Inl ValueError)"

definition closest :: "image_processor \<Rightarrow> kmeans \<Rightarrow> error + float64 list" where
  "closest self km =
     (case diff self km of
        Inl e \<Rightarrow> Inl e
      | Inr d \<Rightarrow> Inr (map (\<lambda>row. f64_sqrt (f64_sum (map f64_square row))) d))"

definition closest_label :: "image_processor \<Rightarrow> kmeans \<Rightarrow> error + nat" where
  "closest_label self km = (case closest self km of Inl e \<Rightarrow> Inl e | Inr ds \<Rightarrow> argmin ds)"

text \<open>Lines 214 to 217: the mask of the selected label and its row and column counts.\<close>

definition label_mask :: "nat list list \<Rightarrow> nat \<Rightarrow> bool list list" where
  "label_mask labels2 cl = map (map (\<lambda>l. l = cl)) labels2"

definition sum_labels_vertical :: "nat list list \<Rightarrow> nat \<Rightarrow> nat list" where
  "sum_labels_vertical labels2 cl = sum_axis1 (label_mask labels2 cl)"

definition sum_labels_horizontal :: "nat list list \<Rightarrow> nat \<Rightarrow> nat list" where
  "sum_labels_horizontal labels2 cl = sum_axis0 (label_mask labels2 cl)"

text \<open>
  Lines 224 to 230: the first and the last nonzero row and column, times 4. The result
  is (\<^verbatim>\<open>min_vertical\<close>, \<^verbatim>\<open>max_vertical\<close>, \<^verbatim>\<open>min_horizontal\<close>, \<^verbatim>\<open>max_horizontal\<close>).
\<close>

definition contour :: "nat list \<Rightarrow> nat list \<Rightarrow> error + (nat \<times> nat \<times> nat \<times> nat)" where
  "contour slv slh =
     (case np_min (nonzero slv) of Inl e \<Rightarrow> Inl e | Inr mnv \<Rightarrow>
      case np_max (nonzero slv) of Inl e \<Rightarrow> Inl e | Inr mxv \<Rightarrow>
      case np_min (nonzero slh) of Inl e \<Rightarrow> Inl e | Inr mnh \<Rightarrow>
      case np_max (nonzero slh) of Inl e \<Rightarrow> Inl e | Inr mxh \<Rightarrow>
        Inr (mnv * 4, mxv * 4, mnh * 4, mxh * 4))"

text \<open>Lines 233 to 236: the four edges, in the order of the source.\<close>

definition draw_rectangle :: "frame \<Rightarrow> nat \<times> nat \<times> nat \<times> nat \<Rightarrow> pixel \<Rightarrow> error + frame" where
  "draw_rectangle out box v =
     (case box of (min_vertical, max_vertical, min_horizontal, max_horizontal) \<Rightarrow>
      case assign_col out min_vertical (max_vertical + 1) min_horizontal v of
        Inl e \<Rightarrow> Inl e | Inr o1 \<Rightarrow>
      case assign_col o1 min_vertical (max_vertical + 1) max_horizontal v of
        Inl e \<Rightarrow> Inl e | Inr o2 \<Rightarrow>
      case assign_row o2 min_vertical min_horizontal (max_horizontal + 1) v of
        Inl e \<Rightarrow> Inl e | Inr o3 \<Rightarrow>
      assign_row o3 max_vertical min_horizontal (max_horizontal + 1) v)"

text \<open>
  \<^verbatim>\<open>dowork(self, array)\<close>. It takes the store and the reference \<^verbatim>\<open>array\<close> and returns
  the pair (\<^verbatim>\<open>center_position\<close> or \<^verbatim>\<open>None\<close>, reference to \<^verbatim>\<open>output\<close>) with the new store.
  The assignment \<^verbatim>\<open>array = resizeNPArray(array, 80, 60)\<close> binds the local name to a new
  object. \<^verbatim>\<open>np.concatenate\<close> raises \<^verbatim>\<open>ValueError\<close> unless the resized array is 60 by 80.
  The array \<^verbatim>\<open>labels_rgb\<close> of lines 202 to 205 is computed and never read, and is left
  out. \<^verbatim>\<open>center_position\<close> is a true division (Python 3).
\<close>

definition dowork ::
  "image_processor \<Rightarrow> externals \<Rightarrow> heap \<Rightarrow> addr \<Rightarrow> error + ((real option \<times> addr) \<times> heap)" where
  "dowork self ext H array =
     (case np_copy H array of (H1, output) \<Rightarrow>
      case alloc H1 (resizeNPArray ext (H1 ! array) 80 60) of (H2, array') \<Rightarrow>
      if \<not> is_frame 60 80 (H2 ! array') then Inl ValueError else
      let km = kmeans_fit ext (reshaped (H2 ! array')) in
      case closest_label self km of Inl e \<Rightarrow> Inl e | Inr cl \<Rightarrow>
      case reshape2 60 80 (labels km) of Inl e \<Rightarrow> Inl e | Inr labels2 \<Rightarrow>
      let slv = sum_labels_vertical labels2 cl;
          slh = sum_labels_horizontal labels2 cl in
      if \<not> (real (sum_list slv) > color_threshold * 4800) then Inr ((None, output), H2) else
      case contour slv slh of Inl e \<Rightarrow> Inl e | Inr box \<Rightarrow>
      case draw_rectangle (H2 ! output) box (as_uint8 (border_color self)) of
        Inl e \<Rightarrow> Inl e
      | Inr drawn \<Rightarrow>
          (case box of (min_vertical, max_vertical, _, _) \<Rightarrow>
             Inr ((Some (real (min_vertical + max_vertical) / 2), output), H2[output := drawn])))"

subsection \<open>Notions used to state the properties of the analysis\<close>

text \<open>
  The resized array and the fitted clustering of one call of \<^verbatim>\<open>dowork\<close>, as functions of
  its argument.
\<close>

definition resized :: "externals \<Rightarrow> heap \<Rightarrow> addr \<Rightarrow> frame" where
  "resized ext H array = resizeNPArray ext (H ! array) 80 60"

definition fitted :: "externals \<Rightarrow> heap \<Rightarrow> addr \<Rightarrow> kmeans" where
  "fitted ext H array = kmeans_fit ext (reshaped (resized ext H array))"

text \<open>
  What a call of \<^verbatim>\<open>dowork\<close> in the notebook can rely on: the reference is live, the
  camera frame is 240 by 320 (\<^verbatim>\<open>np.empty((240, 320, 3), dtype = np.uint8)\<close>), PIL returns
  an image of the requested size 80 by 60, and \<^verbatim>\<open>KMeans(n_clusters = 6)\<close> fitted on 4800
  samples of five features returns six centres of five coordinates and 4800 labels.
\<close>

definition dowork_pre :: "externals \<Rightarrow> heap \<Rightarrow> addr \<Rightarrow> bool" where
  "dowork_pre ext H array =
     (array < length H \<and> is_frame 240 320 (H ! array)
      \<and> is_frame 60 80 (resized ext H array)
      \<and> length (cluster_centers (fitted ext H array)) = 6
      \<and> list_all (\<lambda>center. length center = 5) (cluster_centers (fitted ext H array))
      \<and> length (labels (fitted ext H array)) = 4800)"

text \<open>
  The Euclidean distance between a target colour and the colour part (the first three
  coordinates) of a cluster centre, written out coordinate by coordinate.
\<close>

definition color_distance :: "color \<Rightarrow> real list \<Rightarrow> real" where
  "color_distance target center =
     (case target of (tr, tg, tb) \<Rightarrow>
        sqrt ((center ! 0 - real_of_int tr) ^ 2 + (center ! 1 - real_of_int tg) ^ 2
              + (center ! 2 - real_of_int tb) ^ 2))"

text \<open>
  The same distance as the analysis computes it in double precision: every
  subtraction, square, addition and the square root is rounded.
\<close>

definition f64_color_distance :: "color \<Rightarrow> real list \<Rightarrow> float64" where
  "f64_color_distance target center =
     (case target of (tr, tg, tb) \<Rightarrow>
        f64_sqrt (f64_add (f64_add (f64_square (f64_sub (Finite (center ! 0)) (f64_of_int tr)))
                                   (f64_square (f64_sub (Finite (center ! 1)) (f64_of_int tg))))
                          (f64_square (f64_sub (Finite (center ! 2)) (f64_of_int tb)))))"

text \<open>
  The pixels on the four edges of a box (first row, last row, first column, last
  column), all bounds inclusive.
\<close>

definition on_edge :: "nat \<times> nat \<times> nat \<times> nat \<Rightarrow> nat \<Rightarrow> nat \<Rightarrow> bool" where
  "on_edge box r c =
     (case box of (t, b, l, rt) \<Rightarrow>
        (t \<le> r \<and> r \<le> b \<and> (c = l \<or> c = rt))
      \<or> ((r = t \<or> r = b) \<and> l \<le> c \<and> c \<le> rt))"

text \<open>The number of downsampled pixels that carry a given label.\<close>

definition label_count :: "kmeans \<Rightarrow> nat \<Rightarrow> nat" where
  "label_count km cl = length (filter (\<lambda>l. l = cl) (labels km))"

subsection \<open>Frames of one colour\<close>

text \<open>
  What \<^verbatim>\<open>KMeans\<close> guarantees about the colour of its centres: the centre of a cluster is
  the mean, coordinate by coordinate, of the samples that carry its label
  (\<^verbatim>\<open>samples[labels_ == k].mean(axis = 0)\<close>), and no cluster is empty. Only the three
  colour coordinates are constrained here.
\<close>

definition members :: "int list list \<Rightarrow> kmeans \<Rightarrow> nat \<Rightarrow> int list list" where
  "members samples km k = map fst (filter (\<lambda>(x, l). l = k) (zip samples (labels km)))"

definition mean_axis0 :: "int list list \<Rightarrow> real list" where
  "mean_axis0 xs = map (\<lambda>d. sum_list (map (\<lambda>x. real_of_int (x ! d)) xs) / real (length xs)) [0..<5]"

definition centroid_colors :: "int list list \<Rightarrow> kmeans \<Rightarrow> bool" where
  "centroid_colors samples km =
     list_all (\<lambda>k. members samples km k \<noteq> []
                   \<and> take 3 (cluster_centers km ! k) = take 3 (mean_axis0 (members samples km k)))
              [0..<length (cluster_centers km)]"

text \<open>
  The state in which Lloyd's iteration stops when it has converged: every sample
  carries the label of the centre nearest to it in the five coordinates (the first of
  the nearest ones), no cluster is empty, and every centre is the mean of the samples
  of its cluster. The distances of this description are exact; \<open>first_least\<close> is the index
  of the first least number of a list.
\<close>

fun first_least_loop :: "real list \<Rightarrow> nat \<Rightarrow> nat \<Rightarrow> real \<Rightarrow> nat" where
  "first_least_loop [] i best v = best"
| "first_least_loop (y # ys) i best v =
     (if y < v then first_least_loop ys (Suc i) i y else first_least_loop ys (Suc i) best v)"

definition first_least :: "real list \<Rightarrow> error + nat" where
  "first_least xs =
     (case xs of [] \<Rightarrow> Inl ValueError | x # ys \<Rightarrow> Inr (first_least_loop ys 1 0 x))"

definition sample_distance :: "int list \<Rightarrow> real list \<Rightarrow> real" where
  "sample_distance x center =
     sqrt (sum_list (map (\<lambda>d. d ^ 2) (map2 (-) (map real_of_int x) center)))"

definition nearest_center :: "kmeans \<Rightarrow> int list \<Rightarrow> error + nat" where
  "nearest_center km x = first_least (map (sample_distance x) (cluster_centers km))"

definition lloyd_fixpoint :: "int list list \<Rightarrow> kmeans \<Rightarrow> bool" where
  "lloyd_fixpoint samples km =
     (length (labels km) = length samples
      \<and> list_all (\<lambda>i. nearest_center km (samples ! i) = Inr (labels km ! i))
           [0..<length samples]
      \<and> list_all (\<lambda>k. members samples km k \<noteq> []
                      \<and> cluster_centers km ! k = mean_axis0 (members samples km k))
           [0..<length (cluster_centers km)])"

text \<open>A frame of one colour, and a pixel read as a colour of integers.\<close>

definition uniform :: "pixel \<Rightarrow> frame \<Rightarrow> bool" where
  "uniform p f = list_all (list_all (\<lambda>q. q = p)) f"

definition rgb :: "pixel \<Rightarrow> color" where
  "rgb p = (case p of (r, g, b) \<Rightarrow> (uint r, uint g, uint b))"

subsection \<open>A solid red frame and one outcome of the clustering\<close>

text \<open>
  The first processor of the notebook,
  \<^verbatim>\<open>ImageProcessor(thread_stopper, frames, lock, np.array([255,0,0]), np.array([255,0,0]))\<close>,
  and a 240 by 320 frame of one colour.
\<close>

definition imageThreadRed :: image_processor where
  "imageThreadRed = \<lparr>target_color = (255, 0, 0), border_color = (255, 0, 0)\<rparr>"

definition solid_frame :: "pixel \<Rightarrow> frame" where
  "solid_frame p = replicate 240 (replicate 320 p)"

definition red_frame :: frame where
  "red_frame = solid_frame (255, 0, 0)"

text \<open>
  A resampling by nearest neighbour: on a frame of one colour it returns, as PIL's
  filter does, the frame of that colour in the new size.
\<close>

definition nearest_resize :: "frame \<Rightarrow> nat \<Rightarrow> nat \<Rightarrow> frame" where
  "nearest_resize f w h =
     map (\<lambda>r. map (\<lambda>c. f ! (r * length f div h) ! (c * width f div w)) [0..<w]) [0..<h]"

text \<open>
  On a frame of one colour the five features of a pixel differ in the position only,
  and six-means splits the 60 by 80 grid into six regions. One fixed point of Lloyd's
  iteration is the split into two bands of 30 rows and three strips of 27, 27 and 26
  columns, the centres being the midpoints of the six blocks (rows 14.5 and 44.5,
  columns 13, 40 and 66.5): every pixel is nearest to the centre of its own block
  (\<open>grid_lloyd_fixpoint\<close> below).
\<close>

definition grid_label :: "nat \<Rightarrow> nat \<Rightarrow> nat" where
  "grid_label r c = (if r < 30 then 0 else 3) + (if c < 27 then 0 else if c < 54 then 1 else 2)"

definition grid :: "nat list list" where
  "grid = map (\<lambda>r. map (grid_label r) [0..<80]) [0..<60]"

definition grid_kmeans :: kmeans where
  "grid_kmeans =
     \<lparr>cluster_centers =
        [ [255, 0, 0, 29 / 2, 13], [255, 0, 0, 29 / 2, 40], [255, 0, 0, 29 / 2, 133 / 2],
          [255, 0, 0, 89 / 2, 13], [255, 0, 0, 89 / 2, 40], [255, 0, 0, 89 / 2, 133 / 2] ],
      labels = concat grid\<rparr>"

definition grid_ext :: externals where
  "grid_ext = \<lparr>pil_resize = nearest_resize, kmeans_fit = (\<lambda>samples. grid_kmeans)\<rparr>"

text \<open>
  The samples of the solid red frame, row by row, and the rows and columns of the six
  blocks.
\<close>

definition red_samples :: "int list list list" where
  "red_samples = map (\<lambda>r. map (\<lambda>c. [255, 0, 0, int r, int c]) [0..<80]) [0..<60]"

definition block_rows :: "nat \<Rightarrow> nat list" where
  "block_rows k = (if k < 3 then [0..<30] else [30..<60])"

definition block_cols :: "nat \<Rightarrow> nat list" where
  "block_cols k = (if k mod 3 = 0 then [0..<27] else if k mod 3 = 1 then [27..<54] else [54..<80])"

subsection \<open>Clusterings with two centres equally close to the target\<close>

text \<open>
  Six centres over the blocks of \<open>grid\<close>. In the first clustering the second and the third
  centre have the same colour, black. In the second one the first two centres have the
  colours (444/9, 2123/9, 357/9) and (444/9, 357/9, 2123/9), each number being the
  double nearest to the quotient, as the division of a sum by a count of 9 yields it:
  the two colours differ by an exchange of green and blue and are at the same distance
  from black.
\<close>

definition tied_kmeans :: kmeans where
  "tied_kmeans =
     \<lparr>cluster_centers =
        [ [3, 4, 0, 29 / 2, 13], [0, 0, 0, 29 / 2, 40], [0, 0, 0, 29 / 2, 133 / 2],
          [255, 0, 0, 89 / 2, 13], [0, 255, 0, 89 / 2, 40], [0, 0, 255, 89 / 2, 133 / 2] ],
      labels = concat grid\<rparr>"

definition f64_value :: "real \<Rightarrow> real" where
  "f64_value x = (case f64_round x of Finite y \<Rightarrow> y | _ \<Rightarrow> 0)"

definition swapped_kmeans :: kmeans where
  "swapped_kmeans =
     \<lparr>cluster_centers =
        [ [f64_value (444 / 9), f64_value (2123 / 9), f64_value (357 / 9), 29 / 2, 13],
          [f64_value (444 / 9), f64_value (357 / 9), f64_value (2123 / 9), 29 / 2, 40],
          [255, 0, 0, 29 / 2, 133 / 2],
          [0, 255, 0, 89 / 2, 13], [0, 0, 255, 89 / 2, 40], [0, 255, 0, 89 / 2, 133 / 2] ],
      labels = concat grid\<rparr>"

definition black_processor :: image_processor where
  "black_processor = \<lparr>target_color = (0, 0, 0), border_color = (0, 255, 0)\<rparr>"

subsection \<open>The threads\<close>

text \<open>
  The main cell starts three processors, \<^verbatim>\<open>imageThreadRed\<close>, \<^verbatim>\<open>imageThreadGreen\<close> and
  \<^verbatim>\<open>imageThreadBlue\<close>, which run beside the main thread.
\<close>

datatype worker = Red | Green | Blue

datatype tid = Main | Worker worker

text \<open>
  The main thread, statement by statement (lines 298 to 318): the test of the \<^verbatim>\<open>while\<close>,
  the capture (lines 299 to 301), \<^verbatim>\<open>lock.acquire()\<close>, \<^verbatim>\<open>frames.full()\<close>, \<^verbatim>\<open>frames.get()\<close>,
  \<^verbatim>\<open>frames.task_done()\<close>, \<^verbatim>\<open>frames.put(freshest_frame)\<close>, \<^verbatim>\<open>lock.release()\<close>, then
  \<^verbatim>\<open>thread_stopper.set()\<close> and the three \<^verbatim>\<open>join()\<close>. \<open>M_raised\<close> is the main thread after an
  exception has left the cell: there is no \<^verbatim>\<open>try\<close> in the cell, so none of the later
  statements runs. \<open>M_raised_locked\<close> is the same for an exception raised between
  \<^verbatim>\<open>acquire\<close> and \<^verbatim>\<open>release\<close>, which leaves the lock taken.
\<close>

datatype main_pc =
    M_while | M_capture | M_acquire | M_full | M_get | M_task_done | M_put | M_release
  | M_raised | M_raised_locked
  | M_set_stop | M_join worker | M_done

text \<open>
  A processor's \<^verbatim>\<open>run\<close>, statement by statement (lines 172 to 183): the test of the
  \<^verbatim>\<open>while\<close>, \<^verbatim>\<open>self.lock.acquire()\<close>, \<^verbatim>\<open>self.frames.get_nowait()\<close>, \<^verbatim>\<open>self.dowork\<close>,
  \<^verbatim>\<open>self.frames.task_done()\<close>, the \<^verbatim>\<open>finally\<close> clause \<^verbatim>\<open>self.lock.release()\<close> (reached
  normally, after \<^verbatim>\<open>except queue.Empty: continue\<close>, or with another exception in
  flight), \<^verbatim>\<open>showarray\<close> and \<^verbatim>\<open>clear_output\<close>. \<open>W_returned\<close> is the thread after the loop
  has ended, \<open>W_raised\<close> the thread ended by an exception.
\<close>

datatype worker_pc =
    W_while | W_acquire | W_get_nowait | W_dowork | W_task_done
  | W_finally | W_finally_continue | W_finally_raise
  | W_showarray | W_clear_output | W_returned | W_raised

text \<open>
  The shared objects \<^verbatim>\<open>frames\<close>, \<^verbatim>\<open>lock\<close> (with the thread that acquired it, \<open>None\<close> when
  it is free) and \<^verbatim>\<open>thread_stopper\<close>, the main thread's \<^verbatim>\<open>freshest_frame\<close>, and where each
  thread stands.
\<close>

record 'a system =
  frames :: "'a queue"
  lock :: "tid option"
  thread_stopper :: bool
  freshest_frame :: "'a option"
  main_at :: main_pc
  worker_at :: "worker \<Rightarrow> worker_pc"

definition init :: "'a system" where
  "init = \<lparr>frames = Queue 10, lock = None, thread_stopper = False, freshest_frame = None,
           main_at = M_while, worker_at = (\<lambda>w. W_while)\<rparr>"

text \<open>
  What the environment decides in a step: nothing (\<open>Go\<close>), that \<^verbatim>\<open>time_to_run\<close> has
  elapsed, the frame the camera delivers, or that the statement raises (the capture,
  \<^verbatim>\<open>dowork\<close>, the display).
\<close>

datatype 'a choice = Go | Elapsed | Captured 'a | Raise

definition finished :: "worker_pc \<Rightarrow> bool" where
  "finished pc = (pc = W_returned \<or> pc = W_raised)"

definition next_join :: "worker \<Rightarrow> main_pc" where
  "next_join w = (case w of Red \<Rightarrow> M_join Green | Green \<Rightarrow> M_join Blue | Blue \<Rightarrow> M_done)"

text \<open>
  One statement of the main thread. \<open>None\<close> means that the thread cannot proceed now: it
  waits for the lock, for a thread to end, or inside a blocking \<^verbatim>\<open>get\<close> or \<^verbatim>\<open>put\<close>.
\<close>

fun main_exec :: "main_pc \<Rightarrow> 'a choice \<Rightarrow> 'a system \<Rightarrow> 'a system option" where
  "main_exec M_while Go s = Some (s\<lparr>main_at := M_capture\<rparr>)"
| "main_exec M_while Elapsed s = Some (s\<lparr>main_at := M_set_stop\<rparr>)"
| "main_exec M_capture (Captured f) s =
     Some (s\<lparr>freshest_frame := Some f, main_at := M_acquire\<rparr>)"
| "main_exec M_capture Raise s = Some (s\<lparr>main_at := M_raised\<rparr>)"
| "main_exec M_acquire Go s =
     (if lock s = None then Some (s\<lparr>lock := Some Main, main_at := M_full\<rparr>) else None)"
| "main_exec M_full Go s =
     (if full (frames s) then Some (s\<lparr>main_at := M_get\<rparr>)
      else Some (s\<lparr>main_at := M_put\<rparr>))"
| "main_exec M_get Go s =
     (case get (frames s) of
        Inl e \<Rightarrow> None
      | Inr (x, q) \<Rightarrow> Some (s\<lparr>frames := q, main_at := M_task_done\<rparr>))"
| "main_exec M_task_done Go s =
     (case task_done (frames s) of
        Inl e \<Rightarrow> Some (s\<lparr>main_at := M_raised_locked\<rparr>)
      | Inr q \<Rightarrow> Some (s\<lparr>frames := q, main_at := M_release\<rparr>))"
| "main_exec M_put Go s =
     (case freshest_frame s of
        None \<Rightarrow> None
      | Some f \<Rightarrow>
          (case put (frames s) f of
             Inl e \<Rightarrow> None
           | Inr q \<Rightarrow> Some (s\<lparr>frames := q, main_at := M_release\<rparr>)))"
| "main_exec M_release Go s =
     (if lock s = None then Some (s\<lparr>main_at := M_raised\<rparr>)
      else Some (s\<lparr>lock := None, main_at := M_while\<rparr>))"
| "main_exec M_set_stop Go s = Some (s\<lparr>thread_stopper := True, main_at := M_join Red\<rparr>)"
| "main_exec (M_join w) Go s =
     (if finished (worker_at s w) then Some (s\<lparr>main_at := next_join w\<rparr>) else None)"
| "main_exec _ _ s = None"

definition main_step :: "'a choice \<Rightarrow> 'a system \<Rightarrow> 'a system option" where
  "main_step c s = main_exec (main_at s) c s"

definition goto :: "worker \<Rightarrow> worker_pc \<Rightarrow> 'a system \<Rightarrow> 'a system" where
  "goto w pc s = s\<lparr>worker_at := (worker_at s)(w := pc)\<rparr>"

text \<open>
  One statement of a processor. \<^verbatim>\<open>lock.release()\<close> on a free lock raises \<^verbatim>\<open>RuntimeError\<close>.
\<close>

fun worker_exec :: "worker_pc \<Rightarrow> worker \<Rightarrow> 'a choice \<Rightarrow> 'a system \<Rightarrow> 'a system option" where
  "worker_exec W_while w Go s =
     (if thread_stopper s then Some (goto w W_returned s) else Some (goto w W_acquire s))"
| "worker_exec W_acquire w Go s =
     (if lock s = None then Some (goto w W_get_nowait (s\<lparr>lock := Some (Worker w)\<rparr>))
      else None)"
| "worker_exec W_get_nowait w Go s =
     (case get_nowait (frames s) of
        Inl e \<Rightarrow> Some (goto w W_finally_continue s)
      | Inr (x, q) \<Rightarrow> Some (goto w W_dowork (s\<lparr>frames := q\<rparr>)))"
| "worker_exec W_dowork w Go s = Some (goto w W_task_done s)"
| "worker_exec W_dowork w Raise s = Some (goto w W_finally_raise s)"
| "worker_exec W_task_done w Go s =
     (case task_done (frames s) of
        Inl e \<Rightarrow> Some (goto w W_finally_raise s)
      | Inr q \<Rightarrow> Some (goto w W_finally (s\<lparr>frames := q\<rparr>)))"
| "worker_exec W_finally w Go s =
     (if lock s = None then Some (goto w W_raised s)
      else Some (goto w W_showarray (s\<lparr>lock := None\<rparr>)))"
| "worker_exec W_finally_continue w Go s =
     (if lock s = None then Some (goto w W_raised s)
      else Some (goto w W_while (s\<lparr>lock := None\<rparr>)))"
| "worker_exec W_finally_raise w Go s =
     (if lock s = None then Some (goto w W_raised s)
      else Some (goto w W_raised (s\<lparr>lock := None\<rparr>)))"
| "worker_exec W_showarray w Go s = Some (goto w W_clear_output s)"
| "worker_exec W_showarray w Raise s = Some (goto w W_raised s)"
| "worker_exec W_clear_output w Go s = Some (goto w W_while s)"
| "worker_exec W_clear_output w Raise s = Some (goto w W_raised s)"
| "worker_exec _ w _ s = None"

definition worker_step :: "worker \<Rightarrow> 'a choice \<Rightarrow> 'a system \<Rightarrow> 'a system option" where
  "worker_step w c s = worker_exec (worker_at s w) w c s"

text \<open>
  A schedule is a list of steps, each naming the thread that runs and the choice of the
  environment; \<open>run\<close> executes it, and a state is reachable when some schedule leads to
  it from the initial state (queue created, threads started, nothing captured yet).
\<close>

fun step :: "tid \<times> 'a choice \<Rightarrow> 'a system \<Rightarrow> 'a system option" where
  "step (Main, c) s = main_step c s"
| "step (Worker w, c) s = worker_step w c s"

fun run :: "(tid \<times> 'a choice) list \<Rightarrow> 'a system \<Rightarrow> 'a system option" where
  "run [] s = Some s"
| "run (e # es) s = (case step e s of None \<Rightarrow> None | Some s' \<Rightarrow> run es s')"

definition reachable :: "'a system \<Rightarrow> bool" where
  "reachable s = (\<exists>es. run es init = Some s)"

text \<open>The statements between \<^verbatim>\<open>acquire\<close> and \<^verbatim>\<open>release\<close>, and those that touch the queue.\<close>

definition main_in_lock :: "main_pc \<Rightarrow> bool" where
  "main_in_lock pc = (pc \<in> {M_full, M_get, M_task_done, M_put, M_release, M_raised_locked})"

definition worker_in_lock :: "worker_pc \<Rightarrow> bool" where
  "worker_in_lock pc =
     (pc \<in> {W_get_nowait, W_dowork, W_task_done, W_finally, W_finally_continue, W_finally_raise})"

definition accesses_queue :: "'a system \<Rightarrow> tid \<Rightarrow> bool" where
  "accesses_queue s t =
     (case t of
        Main \<Rightarrow> main_at s \<in> {M_full, M_get, M_task_done, M_put}
      | Worker w \<Rightarrow> worker_at s w \<in> {W_get_nowait, W_task_done})"

text \<open>
  The invariant of the system. An item that was taken and not yet marked done is
  pending; the lock is held exactly by the thread inside its locked block.
\<close>

definition main_pending :: "main_pc \<Rightarrow> nat" where
  "main_pending pc = (if pc = M_task_done then 1 else 0)"

definition workers_pending :: "(worker \<Rightarrow> worker_pc) \<Rightarrow> nat" where
  "workers_pending wa = (if \<exists>w. wa w = W_dowork \<or> wa w = W_task_done then 1 else 0)"

definition workers_lock :: "tid option \<Rightarrow> (worker \<Rightarrow> worker_pc) \<Rightarrow> bool" where
  "workers_lock l wa = (\<forall>w. (l = Some (Worker w)) = worker_in_lock (wa w))"

definition workers_returned :: "bool \<Rightarrow> (worker \<Rightarrow> worker_pc) \<Rightarrow> bool" where
  "workers_returned stop wa = (\<forall>w. wa w = W_returned \<longrightarrow> stop)"

definition sys_inv :: "'a system \<Rightarrow> bool" where
  "sys_inv s =
     (maxsize (frames s) = 10 \<and> qsize (frames s) \<le> 10
      \<and> qsize (frames s) + main_pending (main_at s) + workers_pending (worker_at s)
           \<le> unfinished_tasks (frames s)
      \<and> (lock s = Some Main) = main_in_lock (main_at s)
      \<and> main_at s \<noteq> M_raised_locked
      \<and> workers_lock (lock s) (worker_at s)
      \<and> (main_at s = M_get \<longrightarrow> full (frames s))
      \<and> (main_at s = M_put \<longrightarrow> \<not> full (frames s))
      \<and> (main_at s \<in> {M_acquire, M_full, M_put} \<longrightarrow> freshest_frame s \<noteq> None)
      \<and> thread_stopper s = (main_at s \<in> {M_join Red, M_join Green, M_join Blue, M_done})
      \<and> workers_returned (thread_stopper s) (worker_at s))"

text \<open>
  A schedule in which the main thread captures and enqueues one frame and the red
  processor then takes it; and the situation after a failed capture.
\<close>

definition one_frame_trace :: "(tid \<times> nat choice) list" where
  "one_frame_trace =
     [(Main, Go), (Main, Captured 1), (Main, Go), (Main, Go), (Main, Go), (Main, Go),
      (Worker Red, Go), (Worker Red, Go), (Worker Red, Go)]"

definition abandoned :: "'a system \<Rightarrow> bool" where
  "abandoned s = (main_at s = M_raised \<and> \<not> thread_stopper s
                   \<and> (\<forall>w. worker_at s w \<noteq> W_returned))"

text \<open>
  The main thread has left the \<^verbatim>\<open>while\<close> loop normally: it stands at
  \<^verbatim>\<open>thread_stopper.set()\<close>, at a \<^verbatim>\<open>join\<close> or at the end of the cell.
\<close>

definition past_loop :: "main_pc \<Rightarrow> bool" where
  "past_loop pc = (pc = M_set_stop \<or> (\<exists>w. pc = M_join w) \<or> pc = M_done)"

text \<open>
  A processor polls again: the processors alone, none of their statements raising, can
  run on from the state until the processor holds the lock and stands at
  \<^verbatim>\<open>self.frames.get_nowait()\<close>.
\<close>

definition polls_again :: "'a system \<Rightarrow> worker \<Rightarrow> bool" where
  "polls_again s w =
     (\<exists>es s'. list_all (\<lambda>e. fst e \<noteq> Main \<and> snd e = Go) es \<and> run es s = Some s'
        \<and> worker_at s' w = W_get_nowait \<and> lock s' = Some (Worker w))"

text \<open>Two states that differ at most in the shared objects and in where one processor stands.\<close>

definition same_but :: "worker \<Rightarrow> 'a system \<Rightarrow> 'a system \<Rightarrow> bool" where
  "same_but v s s' =
     (main_at s' = main_at s \<and> thread_stopper s' = thread_stopper s
      \<and> (\<forall>u. u \<noteq> v \<longrightarrow> worker_at s' u = worker_at s u))"

section \<open>Properties of the locked push block\<close>

lemma push_block_not_full:
  "\<not> full q \<Longrightarrow> push_block q f =
     Inr (q\<lparr>items := items q @ [f], unfinished_tasks := Suc (unfinished_tasks q)\<rparr>)"
  by (simp add: push_block_def put_def)

lemma push_block_full:
  assumes "queue_inv q" and "full q"
  shows "push_block q f =
     Inr (q\<lparr>items := tl (items q), unfinished_tasks := unfinished_tasks q - 1\<rparr>)"
proof -
  from assms obtain x xs where xs: "items q = x # xs"
    by (cases "items q") (auto simp: full_def qsize_def queue_inv_def)
  with assms have "unfinished_tasks q \<noteq> 0"
    by (auto simp: queue_inv_def qsize_def)
  with xs assms show ?thesis
    by (simp add: push_block_def get_def task_done_def)
qed

lemma push_block_inv:
  assumes "queue_inv q"
  shows "\<exists>q'. push_block q f = Inr q' \<and> queue_inv q'"
proof (cases "full q")
  case True
  with assms show ?thesis
    by (auto simp: push_block_full queue_inv_def qsize_def full_def)
next
  case False
  with assms show ?thesis
    by (auto simp: push_block_not_full queue_inv_def qsize_def full_def)
qed

text \<open>
  C1, evaluated on the code. Starting from the empty queue of the notebook, ten frames
  (numbered 1 to 10) fill the queue. The push of frame 11 finds the queue full: the
  block removes frame 1 and returns, but the \<^verbatim>\<open>put\<close> sits in the \<^verbatim>\<open>else\<close> branch, so
  frame 11 is not appended. The queue then holds the nine frames
  2 to 10, and after one more push the frames 2 to 10 and 12: not the ten most recent
  pushes, and frame 11 was never in the queue.
\<close>

theorem push_block_full_drops_new_frame:
  "map_sum id items (push_all (Queue 10) [1, 2, 3, 4, 5, 6, 7, 8, 9, 10 :: nat])
     = Inr [1, 2, 3, 4, 5, 6, 7, 8, 9, 10]
   \<and> map_sum id items (push_all (Queue 10) [1, 2, 3, 4, 5, 6, 7, 8, 9, 10, 11 :: nat])
     = Inr [2, 3, 4, 5, 6, 7, 8, 9, 10]
   \<and> map_sum id items (push_all (Queue 10) [1, 2, 3, 4, 5, 6, 7, 8, 9, 10, 11, 12 :: nat])
     = Inr [2, 3, 4, 5, 6, 7, 8, 9, 10, 12]"
  by (simp add: push_block_def Queue_def full_def qsize_def get_def put_def task_done_def)

section \<open>NumPy operations\<close>

subsection \<open>Rounding to double precision\<close>

lemma round_half_even_near:
  assumes "\<bar>y - of_int n\<bar> < 1 / 2"
  shows "round_half_even y = n"
proof (cases "of_int n \<le> y")
  case True
  with assms have "\<lfloor>y\<rfloor> = n" by (intro floor_unique) auto
  with assms True show ?thesis by (simp add: round_half_even_def)
next
  case False
  with assms have f: "\<lfloor>y\<rfloor> = n - 1" by (intro floor_unique) auto
  with assms False show ?thesis by (auto simp: round_half_even_def Let_def)
qed

lemma round_half_even_int [simp]: "round_half_even (of_int n) = n"
  by (rule round_half_even_near) simp

lemma round_half_even_nonneg: "0 \<le> y \<Longrightarrow> 0 \<le> round_half_even y"
  by (auto simp: round_half_even_def Let_def)

lemma f64_exponent_eq:
  assumes "2 powi e \<le> \<bar>x\<bar>" "\<bar>x\<bar> < 2 powi (e + 1)" "- 1022 \<le> e"
  shows "f64_exponent x = e"
proof -
  have "0 < (2::real) powi e" by simp
  with assms(1) have p: "0 < \<bar>x\<bar>" by linarith
  have 1: "(2::real) powr real_of_int e = 2 powi e" by (simp add: powr_real_of_int')
  have 2: "(2::real) powr (real_of_int e + 1) = 2 powi (e + 1)"
    using powr_real_of_int' [of "2::real" "e + 1"] by simp
  have "2 powr real_of_int e \<le> \<bar>x\<bar> \<and> \<bar>x\<bar> < 2 powr (real_of_int e + 1)"
    unfolding 1 2 using assms(1,2) by simp
  then have "\<lfloor>log 2 \<bar>x\<bar>\<rfloor> = e"
    using p by (subst floor_log_eq_powr_iff) simp_all
  with assms(3) show ?thesis by (simp add: f64_exponent_def)
qed

lemma f64_round_eq:
  assumes "2 powi e \<le> \<bar>x\<bar>" "\<bar>x\<bar> < 2 powi (e + 1)" "- 1022 \<le> e"
    and "\<bar>x - of_int n * 2 powi (e - 52)\<bar> < 2 powi (e - 53)"
    and "\<bar>of_int n * 2 powi (e - 52)\<bar> < f64_huge"
  shows "f64_round x = Finite (of_int n * 2 powi (e - 52))"
proof -
  let ?u = "2 powi (e - 52) :: real"
  have u: "0 < ?u" by simp
  have "0 < (2::real) powi e" by simp
  with assms(1) have "0 < \<bar>x\<bar>" by linarith
  then have x: "x \<noteq> 0" by simp
  have e: "f64_exponent x = e" using assms(1-3) by (rule f64_exponent_eq)
  have h: "(2::real) powi (e - 53) = ?u / 2"
    by (simp add: power_int_diff)
  have "\<bar>x / ?u - of_int n\<bar> = \<bar>x - of_int n * ?u\<bar> / ?u"
    using u by (simp add: field_simps abs_divide)
  also have "\<dots> < (?u / 2) / ?u" using assms(4) u unfolding h by (simp add: divide_strict_right_mono)
  also have "\<dots> = 1 / 2" using u by simp
  finally have "round_half_even (x / ?u) = n" by (rule round_half_even_near)
  with x e assms(5) show ?thesis by (simp add: f64_round_def Let_def abs_less_iff)
qed

lemma f64_huge_pos: "0 < f64_huge"
  by (simp add: f64_huge_def)

lemma f64_round_not_NaN [simp]: "f64_round x \<noteq> NaN"
  by (simp add: f64_round_def Let_def)

lemma f64_round_nonneg: "0 \<le> x \<Longrightarrow> f64_nonneg (f64_round x)"
proof -
  assume x: "0 \<le> x"
  let ?u = "2 powi (f64_exponent x - 52) :: real"
  have "0 \<le> x / ?u" using x by simp
  then have "0 \<le> round_half_even (x / ?u)" by (rule round_half_even_nonneg)
  then have "0 \<le> real_of_int (round_half_even (x / ?u)) * ?u" by simp
  then show ?thesis using f64_huge_pos
    by (auto simp: f64_round_def Let_def f64_nonneg_def)
qed

lemma f64_round_0 [simp]: "f64_round 0 = Finite 0"
  by (simp add: f64_round_def)

lemma f64_round_int:
  assumes "\<bar>n\<bar> < 2 ^ 53"
  shows "f64_round (of_int n) = Finite (of_int n)"
proof (cases "n = 0")
  case True
  then show ?thesis by simp
next
  case False
  let ?x = "real_of_int n"
  define e where "e = \<lfloor>log 2 \<bar>?x\<bar>\<rfloor>"
  have p: "0 < \<bar>?x\<bar>" using False by simp
  have 1: "(2::real) powr real_of_int e = 2 powi e" by (simp add: powr_real_of_int')
  have 2: "(2::real) powr (real_of_int e + 1) = 2 powi (e + 1)"
    using powr_real_of_int' [of "2::real" "e + 1"] by simp
  have "2 powr real_of_int e \<le> \<bar>?x\<bar> \<and> \<bar>?x\<bar> < 2 powr (real_of_int e + 1)"
    using floor_log_eq_powr_iff [of "\<bar>?x\<bar>" 2 e] p by (simp add: e_def)
  then have lo: "2 powi e \<le> \<bar>?x\<bar>" and hi: "\<bar>?x\<bar> < 2 powi (e + 1)"
    unfolding 1 2 by simp_all
  have "1 \<le> \<bar>n\<bar>" using False by simp
  then have x1: "1 \<le> \<bar>?x\<bar>" by (metis of_int_1_le_iff of_int_abs)
  have e0: "0 \<le> e"
  proof (rule ccontr)
    assume "\<not> 0 \<le> e"
    then have "e + 1 \<le> 0" by simp
    then have "(2::real) powi (e + 1) \<le> 2 powi 0" by (intro power_int_increasing) simp_all
    with hi x1 show False by simp
  qed
  have x53: "\<bar>?x\<bar> < 2 ^ 53" using assms by (metis of_int_abs of_int_less_numeral_power_cancel_iff)
  have e52: "e \<le> 52"
  proof (rule ccontr)
    assume "\<not> e \<le> 52"
    then have "53 \<le> e" by simp
    then have "(2::real) powi 53 \<le> 2 powi e" by (intro power_int_increasing) simp_all
    with lo x53 show False by simp
  qed
  define k where "k = n * 2 ^ nat (52 - e)"
  have "(2::real) ^ nat (52 - e) = 2 powi (52 - e)" using e52 by (simp add: power_int_def)
  then have "real_of_int k * 2 powi (e - 52) = ?x * (2 powi (52 - e) * 2 powi (e - 52))"
    by (simp add: k_def)
  also have "(2::real) powi (52 - e) * 2 powi (e - 52) = 2 powi ((52 - e) + (e - 52))"
    by (subst power_int_add) simp_all
  finally have k: "real_of_int k * 2 powi (e - 52) = ?x" by simp
  have "f64_round ?x = Finite (real_of_int k * 2 powi (e - 52))"
  proof (rule f64_round_eq)
    show "2 powi e \<le> \<bar>?x\<bar>" by (rule lo)
    show "\<bar>?x\<bar> < 2 powi (e + 1)" by (rule hi)
    show "- 1022 \<le> e" using e0 by simp
    show "\<bar>?x - real_of_int k * 2 powi (e - 52)\<bar> < 2 powi (e - 53)" unfolding k by simp
    have "(2::real) ^ 53 \<le> 2 ^ 1024" by (rule power_increasing) simp_all
    with x53 show "\<bar>real_of_int k * 2 powi (e - 52)\<bar> < f64_huge" unfolding k f64_huge_def by linarith
  qed
  then show ?thesis unfolding k .
qed

lemma f64_ge_refl: "a \<noteq> NaN \<Longrightarrow> f64_ge a a"
  by (cases a) simp_all

lemma f64_ge_total: "a \<noteq> NaN \<Longrightarrow> b \<noteq> NaN \<Longrightarrow> \<not> f64_ge a b \<Longrightarrow> f64_ge b a"
  by (cases a; cases b) simp_all

lemma f64_ge_trans: "f64_ge a b \<Longrightarrow> f64_ge b c \<Longrightarrow> f64_ge a c"
  by (cases a; cases b; cases c) simp_all

lemma f64_less_le_trans: "f64_less a b \<Longrightarrow> f64_le b c \<Longrightarrow> f64_less a c"
  unfolding f64_less_def f64_le_def by (cases a; cases b; cases c) simp_all

lemma f64_less_imp_le: "f64_less a b \<Longrightarrow> f64_le a b"
  unfolding f64_less_def f64_le_def by (cases a; cases b) simp_all

lemma argmin_loop_spec:
  assumes "length pre = i" "best < i" "pre ! best = v" "NaN \<notin> set pre" "NaN \<notin> set ys"
    "\<forall>j<i. f64_le v (pre ! j)" "\<forall>j<best. f64_less v (pre ! j)"
  shows "argmin_loop ys i best v < length (pre @ ys)
       \<and> (\<forall>j<length (pre @ ys). f64_le ((pre @ ys) ! argmin_loop ys i best v) ((pre @ ys) ! j))
       \<and> (\<forall>j<argmin_loop ys i best v. f64_less ((pre @ ys) ! argmin_loop ys i best v) ((pre @ ys) ! j))"
  using assms
proof (induction ys arbitrary: pre i best v)
  case Nil
  then show ?case by simp
next
  case (Cons y ys)
  have v: "v \<noteq> NaN" using Cons.prems(2,3,4) Cons.prems(1) by (metis nth_mem)
  have y: "y \<noteq> NaN" using Cons.prems(5) by auto
  show ?case
  proof (cases "f64_ge y v")
    case False
    with v y have lt: "f64_less y v" by (simp add: f64_less_def)
    have "argmin_loop ys (Suc i) i y < length ((pre @ [y]) @ ys)
       \<and> (\<forall>j<length ((pre @ [y]) @ ys). f64_le (((pre @ [y]) @ ys) ! argmin_loop ys (Suc i) i y) (((pre @ [y]) @ ys) ! j))
       \<and> (\<forall>j<argmin_loop ys (Suc i) i y. f64_less (((pre @ [y]) @ ys) ! argmin_loop ys (Suc i) i y) (((pre @ [y]) @ ys) ! j))"
    proof (rule Cons.IH)
      show "length (pre @ [y]) = Suc i" using Cons.prems by simp
      show "i < Suc i" by simp
      show "(pre @ [y]) ! i = y" using Cons.prems(1) by (auto simp: nth_append)
      show "NaN \<notin> set (pre @ [y])" using Cons.prems(4) y by auto
      show "NaN \<notin> set ys" using Cons.prems(5) by auto
      have a: "f64_less y (pre ! j)" if "j < i" for j
        using lt Cons.prems(6) that by (auto intro: f64_less_le_trans)
      show "\<forall>j<i. f64_less y ((pre @ [y]) ! j)"
        using a Cons.prems(1) by (auto simp: nth_append)
      show "\<forall>j<Suc i. f64_le y ((pre @ [y]) ! j)"
        using a Cons.prems(1) y
        by (auto simp: nth_append less_Suc_eq f64_le_def f64_ge_refl dest: f64_less_imp_le [unfolded f64_le_def])
    qed
    with False v show ?thesis by simp
  next
    case True
    have "argmin_loop ys (Suc i) best v < length ((pre @ [y]) @ ys)
       \<and> (\<forall>j<length ((pre @ [y]) @ ys). f64_le (((pre @ [y]) @ ys) ! argmin_loop ys (Suc i) best v) (((pre @ [y]) @ ys) ! j))
       \<and> (\<forall>j<argmin_loop ys (Suc i) best v. f64_less (((pre @ [y]) @ ys) ! argmin_loop ys (Suc i) best v) (((pre @ [y]) @ ys) ! j))"
    proof (rule Cons.IH)
      show "length (pre @ [y]) = Suc i" using Cons.prems by simp
      show "best < Suc i" using Cons.prems by simp
      show "(pre @ [y]) ! best = v" using Cons.prems by (simp add: nth_append)
      show "NaN \<notin> set (pre @ [y])" using Cons.prems(4) y by auto
      show "NaN \<notin> set ys" using Cons.prems(5) by auto
      show "\<forall>j<Suc i. f64_le v ((pre @ [y]) ! j)"
        using Cons.prems True by (auto simp: nth_append less_Suc_eq f64_le_def)
      show "\<forall>j<best. f64_less v ((pre @ [y]) ! j)"
        using Cons.prems by (auto simp: nth_append)
    qed
    with True v show ?thesis by simp
  qed
qed

lemma argmin_spec:
  assumes "argmin xs = Inr k" "NaN \<notin> set xs"
  shows "k < length xs \<and> (\<forall>j<length xs. f64_le (xs ! k) (xs ! j)) \<and> (\<forall>j<k. f64_less (xs ! k) (xs ! j))"
proof (cases xs)
  case Nil
  with assms show ?thesis by (simp add: argmin_def)
next
  case (Cons x ys)
  with assms have k: "k = argmin_loop ys 1 0 x" by (simp add: argmin_def)
  have "argmin_loop ys 1 0 x < length ([x] @ ys)
       \<and> (\<forall>j<length ([x] @ ys). f64_le (([x] @ ys) ! argmin_loop ys 1 0 x) (([x] @ ys) ! j))
       \<and> (\<forall>j<argmin_loop ys 1 0 x. f64_less (([x] @ ys) ! argmin_loop ys 1 0 x) (([x] @ ys) ! j))"
    using assms(2) Cons by (intro argmin_loop_spec) (auto simp: f64_le_def intro: f64_ge_refl)
  with k Cons show ?thesis by simp
qed

lemma argmin_total: "xs \<noteq> [] \<Longrightarrow> \<exists>k. argmin xs = Inr k"
  by (cases xs) (simp_all add: argmin_def)

lemma argmin_loop_keep:
  "v \<noteq> NaN \<Longrightarrow> \<forall>y\<in>set ys. f64_ge y v \<Longrightarrow> argmin_loop ys i best v = best"
  by (induction ys arbitrary: i) simp_all

lemma fold_min_Min: "fold min ys (x::nat) = Min (set (x # ys))"
  using Min.set_eq_fold [of x ys] by simp

lemma fold_max_Max: "fold max ys (x::nat) = Max (set (x # ys))"
  using Max.set_eq_fold [of x ys] by simp

lemma set_nonzero: "set (nonzero xs) = {i. i < length xs \<and> xs ! i \<noteq> 0}"
  by (auto simp: nonzero_def)

lemma np_min_nonzero:
  assumes "np_min (nonzero xs) = Inr m"
  shows "m < length xs \<and> xs ! m \<noteq> 0 \<and> (\<forall>j<m. xs ! j = 0)"
proof -
  from assms obtain y ys where ne: "nonzero xs = y # ys" and m: "m = fold min ys y"
    by (auto simp: np_min_def split: list.splits)
  then have mm: "m = Min (set (nonzero xs))" by (simp add: fold_min_Min)
  have "m \<in> set (nonzero xs)" unfolding mm by (rule Min_in) (simp_all add: ne)
  then have a: "m < length xs \<and> xs ! m \<noteq> 0" by (simp add: set_nonzero)
  have le: "\<And>j. j \<in> set (nonzero xs) \<Longrightarrow> m \<le> j" unfolding mm by (rule Min_le) simp_all
  have "xs ! j = 0" if "j < m" for j
  proof (rule ccontr)
    assume "xs ! j \<noteq> 0"
    with that a have "j \<in> set (nonzero xs)" by (simp add: set_nonzero)
    from le [OF this] that show False by simp
  qed
  with a show ?thesis by blast
qed

lemma np_max_nonzero:
  assumes "np_max (nonzero xs) = Inr m"
  shows "m < length xs \<and> xs ! m \<noteq> 0 \<and> (\<forall>j<length xs. m < j \<longrightarrow> xs ! j = 0)"
proof -
  from assms obtain y ys where ne: "nonzero xs = y # ys" and m: "m = fold max ys y"
    by (auto simp: np_max_def split: list.splits)
  then have mm: "m = Max (set (nonzero xs))" by (simp add: fold_max_Max)
  have "m \<in> set (nonzero xs)" unfolding mm by (rule Max_in) (simp_all add: ne)
  then have a: "m < length xs \<and> xs ! m \<noteq> 0" by (simp add: set_nonzero)
  have le: "\<And>j. j \<in> set (nonzero xs) \<Longrightarrow> j \<le> m" unfolding mm by (rule Max_ge) simp_all
  have "xs ! j = 0" if "j < length xs" "m < j" for j
  proof (rule ccontr)
    assume "xs ! j \<noteq> 0"
    with that have "j \<in> set (nonzero xs)" by (simp add: set_nonzero)
    from le [OF this] that show False by simp
  qed
  with a show ?thesis by blast
qed

lemma np_min_total: "xs \<noteq> [] \<Longrightarrow> \<exists>m. np_min xs = Inr m"
  by (cases xs) (simp_all add: np_min_def)

lemma np_max_total: "xs \<noteq> [] \<Longrightarrow> \<exists>m. np_max xs = Inr m"
  by (cases xs) (simp_all add: np_max_def)

lemma nonzero_nonempty: "0 < sum_list xs \<Longrightarrow> nonzero xs \<noteq> []"
proof -
  assume "0 < sum_list xs"
  then obtain x where "x \<in> set xs" "x \<noteq> 0" by (induction xs) auto
  then obtain i where "i < length xs" "xs ! i \<noteq> 0" by (auto simp: in_set_conv_nth)
  then have "i \<in> set (nonzero xs)" by (simp add: set_nonzero)
  then show ?thesis by auto
qed

section \<open>Drawing on a frame\<close>

lemma is_frame_nth: "is_frame h w f \<Longrightarrow> r < h \<Longrightarrow> length (f ! r) = w"
  by (auto simp: is_frame_def list_all_length)

lemma is_frame_iff: "is_frame h w f \<longleftrightarrow> length f = h \<and> (\<forall>r<h. length (f ! r) = w)"
  by (auto simp: is_frame_def list_all_length)

lemma width_frame: "is_frame h w f \<Longrightarrow> 0 < h \<Longrightarrow> width f = w"
  by (cases f) (auto simp: is_frame_def width_def)

lemma assign_col_frame:
  assumes "is_frame h w f" "0 < h" "c < w"
  shows "\<exists>g. assign_col f r0 r1 c v = Inr g \<and> is_frame h w g
           \<and> (\<forall>r<h. \<forall>c'<w. g ! r ! c' = (if r0 \<le> r \<and> r < r1 \<and> c' = c then v else f ! r ! c'))"
proof -
  let ?g = "map (\<lambda>r. if r0 \<le> r \<and> r < r1 then (f ! r)[c := v] else f ! r) [0..<length f]"
  have w: "width f = w" using assms by (simp add: width_frame)
  have len: "length f = h" using assms by (simp add: is_frame_iff)
  have 1: "assign_col f r0 r1 c v = Inr ?g" using assms w by (simp add: assign_col_def)
  have 2: "is_frame h w ?g" using assms by (auto simp: is_frame_iff)
  have 3: "\<forall>r<h. \<forall>c'<w. ?g ! r ! c' = (if r0 \<le> r \<and> r < r1 \<and> c' = c then v else f ! r ! c')"
    using assms len by (auto simp: is_frame_iff nth_list_update)
  from 1 2 3 show ?thesis by blast
qed

lemma assign_row_frame:
  assumes "is_frame h w f" "r < h"
  shows "\<exists>g. assign_row f r c0 c1 v = Inr g \<and> is_frame h w g
           \<and> (\<forall>r'<h. \<forall>c<w. g ! r' ! c = (if r' = r \<and> c0 \<le> c \<and> c < c1 then v else f ! r' ! c))"
proof -
  let ?g = "f[r := map (\<lambda>c. if c0 \<le> c \<and> c < c1 then v else f ! r ! c) [0..<length (f ! r)] ]"
  have len: "length f = h" using assms by (simp add: is_frame_iff)
  have 1: "assign_row f r c0 c1 v = Inr ?g" using assms len by (simp add: assign_row_def)
  have 2: "is_frame h w ?g" using assms by (auto simp: is_frame_iff nth_list_update)
  have 3: "\<forall>r'<h. \<forall>c<w. ?g ! r' ! c = (if r' = r \<and> c0 \<le> c \<and> c < c1 then v else f ! r' ! c)"
    using assms len by (auto simp: is_frame_iff nth_list_update)
  from 1 2 3 show ?thesis by blast
qed

lemma draw_rectangle_frame:
  assumes f: "is_frame h w f" and b: "t \<le> b" "b < h" "l \<le> rt" "rt < w"
  shows "\<exists>g. draw_rectangle f (t, b, l, rt) v = Inr g \<and> is_frame h w g
           \<and> (\<forall>r<h. \<forall>c<w. g ! r ! c = (if on_edge (t, b, l, rt) r c then v else f ! r ! c))"
proof -
  have h: "0 < h" and lw: "l < w" and th: "t < h" using b by simp_all
  from assign_col_frame [OF f h lw, of t "b + 1" v] obtain o1 where
    o1: "assign_col f t (b + 1) l v = Inr o1" "is_frame h w o1"
    "\<forall>r<h. \<forall>c'<w. o1 ! r ! c' = (if t \<le> r \<and> r < b + 1 \<and> c' = l then v else f ! r ! c')"
    by blast
  from assign_col_frame [OF o1(2) h b(4), of t "b + 1" v] obtain o2 where
    o2: "assign_col o1 t (b + 1) rt v = Inr o2" "is_frame h w o2"
    "\<forall>r<h. \<forall>c'<w. o2 ! r ! c' = (if t \<le> r \<and> r < b + 1 \<and> c' = rt then v else o1 ! r ! c')"
    by blast
  from assign_row_frame [OF o2(2) th, of l "rt + 1" v] obtain o3 where
    o3: "assign_row o2 t l (rt + 1) v = Inr o3" "is_frame h w o3"
    "\<forall>r'<h. \<forall>c<w. o3 ! r' ! c = (if r' = t \<and> l \<le> c \<and> c < rt + 1 then v else o2 ! r' ! c)"
    by blast
  from assign_row_frame [OF o3(2) b(2), of l "rt + 1" v] obtain o4 where
    o4: "assign_row o3 b l (rt + 1) v = Inr o4" "is_frame h w o4"
    "\<forall>r'<h. \<forall>c<w. o4 ! r' ! c = (if r' = b \<and> l \<le> c \<and> c < rt + 1 then v else o3 ! r' ! c)"
    by blast
  have 1: "draw_rectangle f (t, b, l, rt) v = Inr o4"
    using o1(1) o2(1) o3(1) o4(1) by (simp add: draw_rectangle_def)
  have 3: "o4 ! r ! c = (if on_edge (t, b, l, rt) r c then v else f ! r ! c)"
    if "r < h" "c < w" for r c
    using that o1(3) o2(3) o3(3) o4(3) by (auto simp: on_edge_def)
  from 1 o4(2) 3 show ?thesis by blast
qed

section \<open>The mask and the contour\<close>

lemma reshape2_length: "reshape2 h w xs = Inr m \<Longrightarrow> length m = h"
  by (auto simp: reshape2_def split: if_splits)

lemma reshape2_row:
  assumes "reshape2 h w xs = Inr m" "r < h"
  shows "length (m ! r) = w"
proof -
  from assms have len: "length xs = h * w" and m: "m = map (\<lambda>r. take w (drop (r * w) xs)) [0..<h]"
    by (auto simp: reshape2_def split: if_splits)
  have "Suc r * w \<le> h * w" using assms(2) by (intro mult_le_mono1) simp
  then have "w \<le> h * w - r * w" by simp
  with m assms(2) len show ?thesis by simp
qed

lemma concat_rows: "concat (map (\<lambda>r. take w (drop (r * w) xs)) [0..<h]) = take (h * w) xs"
proof (induction h)
  case 0
  show ?case by simp
next
  case (Suc h)
  have "take (h * w) xs @ take w (drop (h * w) xs) = take (h * w + w) xs"
    by (simp add: take_add)
  with Suc show ?case by (simp add: add.commute)
qed

lemma reshape2_concat: "reshape2 h w xs = Inr m \<Longrightarrow> concat m = xs"
  by (auto simp: reshape2_def concat_rows split: if_splits)

lemma length_sum_labels_vertical: "length (sum_labels_vertical m cl) = length m"
  by (simp add: sum_labels_vertical_def sum_axis1_def label_mask_def)

lemma sum_labels_vertical_nth:
  "r < length m \<Longrightarrow> sum_labels_vertical m cl ! r = length (filter (\<lambda>l. l = cl) (m ! r))"
  by (simp add: sum_labels_vertical_def sum_axis1_def label_mask_def filter_map comp_def)

lemma sum_list_sum_labels_vertical:
  "sum_list (sum_labels_vertical m cl) = length (filter (\<lambda>l. l = cl) (concat m))"
  by (induction m)
     (simp_all add: sum_labels_vertical_def sum_axis1_def label_mask_def filter_map comp_def)

lemma length_sum_labels_horizontal:
  "m \<noteq> [] \<Longrightarrow> length (sum_labels_horizontal m cl) = length (m ! 0)"
  by (cases m) (simp_all add: sum_labels_horizontal_def sum_axis0_def label_mask_def)

lemma sum_labels_horizontal_pos:
  assumes "r < length m" "c < length (m ! 0)" "c < length (m ! r)" "m ! r ! c = cl"
  shows "sum_labels_horizontal m cl ! c \<noteq> 0"
proof -
  from assms obtain r0 rs where m: "m = r0 # rs" by (cases m) auto
  have "map (\<lambda>l. l = cl) (m ! r) \<in> set (label_mask m cl)"
    using assms(1) by (auto simp: label_mask_def)
  moreover have "map (\<lambda>l. l = cl) (m ! r) ! c" using assms by simp
  ultimately have "filter (\<lambda>row. row ! c) (label_mask m cl) \<noteq> []"
    by (auto simp: filter_empty_conv)
  moreover have "sum_labels_horizontal m cl ! c = length (filter (\<lambda>row. row ! c) (label_mask m cl))"
    using assms(2) m by (simp add: sum_labels_horizontal_def sum_axis0_def label_mask_def)
  ultimately show ?thesis by simp
qed

lemma sum_labels_horizontal_nonzero:
  assumes m: "reshape2 h w xs = Inr m" and pos: "0 < sum_list (sum_labels_vertical m cl)"
  shows "nonzero (sum_labels_horizontal m cl) \<noteq> []"
proof -
  have lm: "length m = h" using m by (rule reshape2_length)
  from nonzero_nonempty [OF pos] obtain r where "r \<in> set (nonzero (sum_labels_vertical m cl))"
    by (cases "nonzero (sum_labels_vertical m cl)") auto
  then have r: "r < h" "sum_labels_vertical m cl ! r \<noteq> 0"
    by (simp_all add: set_nonzero length_sum_labels_vertical lm)
  then have "filter (\<lambda>l. l = cl) (m ! r) \<noteq> []"
    by (simp add: sum_labels_vertical_nth lm)
  then obtain l where "l \<in> set (m ! r)" "l = cl" by (auto simp: filter_empty_conv)
  then obtain c where c: "c < length (m ! r)" "m ! r ! c = cl" by (auto simp: in_set_conv_nth)
  have wr: "length (m ! r) = w" using m r(1) by (rule reshape2_row)
  have h0: "0 < h" using r(1) by simp
  have w0: "length (m ! 0) = w" using m h0 by (rule reshape2_row)
  have "sum_labels_horizontal m cl ! c \<noteq> 0"
    using r(1) c w0 wr lm by (intro sum_labels_horizontal_pos [where r = r]) simp_all
  moreover have "m \<noteq> []" using h0 lm by auto
  then have "c < length (sum_labels_horizontal m cl)"
    using c wr w0 by (simp add: length_sum_labels_horizontal)
  ultimately have "c \<in> set (nonzero (sum_labels_horizontal m cl))" by (simp add: set_nonzero)
  then show ?thesis by auto
qed

lemma length_sum_labels_horizontal_reshape:
  assumes "reshape2 h w xs = Inr m" "0 < h"
  shows "length (sum_labels_horizontal m cl) = w"
proof -
  have "m \<noteq> []" using assms reshape2_length by fastforce
  then show ?thesis using assms by (simp add: length_sum_labels_horizontal reshape2_row)
qed

lemma contour_spec:
  assumes "contour slv slh = Inr (t, b, l, rt)"
  shows "\<exists>i k j n. t = i * 4 \<and> b = k * 4 \<and> l = j * 4 \<and> rt = n * 4
     \<and> i < length slv \<and> slv ! i \<noteq> 0 \<and> (\<forall>x<i. slv ! x = 0)
     \<and> k < length slv \<and> slv ! k \<noteq> 0 \<and> (\<forall>x<length slv. k < x \<longrightarrow> slv ! x = 0)
     \<and> j < length slh \<and> slh ! j \<noteq> 0 \<and> (\<forall>x<j. slh ! x = 0)
     \<and> n < length slh \<and> slh ! n \<noteq> 0 \<and> (\<forall>x<length slh. n < x \<longrightarrow> slh ! x = 0)"
proof -
  from assms obtain i k j n where
    e: "np_min (nonzero slv) = Inr i" "np_max (nonzero slv) = Inr k"
       "np_min (nonzero slh) = Inr j" "np_max (nonzero slh) = Inr n"
    and v: "t = i * 4" "b = k * 4" "l = j * 4" "rt = n * 4"
    by (auto simp: contour_def split: sum.splits)
  from np_min_nonzero [OF e(1)] np_max_nonzero [OF e(2)]
       np_min_nonzero [OF e(3)] np_max_nonzero [OF e(4)] v
  show ?thesis by blast
qed

lemma contour_total:
  assumes "nonzero slv \<noteq> []" "nonzero slh \<noteq> []"
  shows "\<exists>box. contour slv slh = Inr box"
proof -
  from assms np_min_total np_max_total obtain i k j n where
    "np_min (nonzero slv) = Inr i" "np_max (nonzero slv) = Inr k"
    "np_min (nonzero slh) = Inr j" "np_max (nonzero slh) = Inr n"
    by metis
  then show ?thesis by (simp add: contour_def)
qed

lemma contour_bounds:
  assumes "contour slv slh = Inr (t, b, l, rt)"
  shows "t \<le> b \<and> b \<le> (length slv - 1) * 4 \<and> l \<le> rt \<and> rt \<le> (length slh - 1) * 4"
proof -
  from contour_spec [OF assms] obtain i k j n where
    v: "t = i * 4" "b = k * 4" "l = j * 4" "rt = n * 4"
    and i: "i < length slv" "slv ! i \<noteq> 0"
    and k: "k < length slv" "\<forall>x<length slv. k < x \<longrightarrow> slv ! x = 0"
    and j: "j < length slh" "slh ! j \<noteq> 0"
    and n: "n < length slh" "\<forall>x<length slh. n < x \<longrightarrow> slh ! x = 0"
    by blast
  have "i \<le> k" using i k by (meson not_le)
  moreover have "j \<le> n" using j n by (meson not_le)
  ultimately show ?thesis using v k(1) n(1) by auto
qed

section \<open>The analysis of one frame\<close>

subsection \<open>The computed colour distance\<close>

lemma f64_round_numeral:
  "(numeral k :: int) < 2 ^ 53 \<Longrightarrow> f64_round (numeral k) = Finite (numeral k)"
  using f64_round_int [of "numeral k"] by simp

lemma f64_of_int_small: "\<bar>n\<bar> < 2 ^ 53 \<Longrightarrow> f64_of_int n = Finite (of_int n)"
  unfolding f64_of_int_def by (rule f64_round_int)

lemma f64_of_int_not_NaN [simp]: "f64_of_int n \<noteq> NaN"
  by (simp add: f64_of_int_def)

lemma f64_sub_Finite_not_NaN: "b \<noteq> NaN \<Longrightarrow> f64_sub (Finite a) b \<noteq> NaN"
  by (cases b) simp_all

lemma f64_square_nonneg: "x \<noteq> NaN \<Longrightarrow> f64_nonneg (f64_square x)"
  by (cases x) (simp_all add: f64_round_nonneg, simp_all add: f64_nonneg_def)

lemma f64_add_nonneg: "f64_nonneg x \<Longrightarrow> f64_nonneg y \<Longrightarrow> f64_nonneg (f64_add x y)"
  by (cases x; cases y) (simp_all add: f64_nonneg_def f64_round_nonneg [unfolded f64_nonneg_def])

lemma f64_sqrt_not_NaN: "f64_nonneg x \<Longrightarrow> f64_sqrt x \<noteq> NaN"
  by (cases x) (simp_all add: f64_nonneg_def)

lemma f64_color_distance_not_NaN [simp]: "f64_color_distance target center \<noteq> NaN"
proof -
  obtain tr tg tb where t: "target = (tr, tg, tb)" by (cases target)
  have sq: "f64_nonneg (f64_square (f64_sub (Finite a) (f64_of_int n)))" for a n
    by (intro f64_square_nonneg f64_sub_Finite_not_NaN) simp
  show ?thesis unfolding f64_color_distance_def t prod.case
    by (intro f64_sqrt_not_NaN f64_add_nonneg sq)
qed

lemma f64_color_distance_zero:
  assumes "take 3 center = [real_of_int tr, real_of_int tg, real_of_int tb]"
    and "\<bar>tr\<bar> < 2 ^ 53" "\<bar>tg\<bar> < 2 ^ 53" "\<bar>tb\<bar> < 2 ^ 53"
  shows "f64_color_distance (tr, tg, tb) center = Finite 0"
proof -
  have "take 3 center ! 0 = center ! 0" "take 3 center ! 1 = center ! 1"
    "take 3 center ! 2 = center ! 2" by simp_all
  with assms(1) have "center ! 0 = real_of_int tr" "center ! 1 = real_of_int tg"
    "center ! 2 = real_of_int tb" by simp_all
  then show ?thesis using assms(2-4) by (simp add: f64_color_distance_def f64_of_int_small)
qed

lemma closest_eq:
  assumes "list_all (\<lambda>center. length center = 5) (cluster_centers km)"
  shows "closest self km = Inr (map (f64_color_distance (target_color self)) (cluster_centers km))"
proof -
  obtain tr tg tb where t: "target_color self = (tr, tg, tb)" by (cases "target_color self")
  have 3: "list_all (\<lambda>center. length center = 3) (rgb_centers km)"
    using assms by (auto simp: rgb_centers_def list_all_iff)
  have "f64_sqrt (f64_sum (map f64_square (map2 f64_sub (map Finite (take 3 center))
            [f64_of_int tr, f64_of_int tg, f64_of_int tb])))
          = f64_color_distance (tr, tg, tb) center"
    if "center \<in> set (cluster_centers km)" for center
  proof -
    from that assms have "length center = 5" by (simp add: list_all_iff)
    then obtain a b c d e where "center = [a, b, c, d, e]"
      by (auto simp: length_Suc_conv eval_nat_numeral)
    then show ?thesis by (simp add: f64_color_distance_def f64_sum_def)
  qed
  then have "map (\<lambda>center. f64_sqrt (f64_sum (map f64_square (map2 f64_sub (map Finite (take 3 center))
            [f64_of_int tr, f64_of_int tg, f64_of_int tb])))) (cluster_centers km)
          = map (f64_color_distance (tr, tg, tb)) (cluster_centers km)"
    by (intro map_cong refl)
  with 3 show ?thesis
    by (simp add: closest_def diff_def t) (simp add: rgb_centers_def o_def)
qed

lemma closest_label_exists:
  assumes "cluster_centers km \<noteq> []"
    and "list_all (\<lambda>center. length center = 5) (cluster_centers km)"
  shows "\<exists>cl. closest_label self km = Inr cl"
  using assms(1) argmin_total [of "map (f64_color_distance (target_color self)) (cluster_centers km)"]
  by (simp add: closest_label_def closest_eq [OF assms(2)])

subsection \<open>The cases of the analysis\<close>

lemma threshold_iff: "(real n > color_threshold * 4800) = (336 < n)"
  by (simp add: color_threshold_def)

lemma dowork_unfold:
  assumes "array < length H"
  shows "dowork self ext H array =
     (if \<not> is_frame 60 80 (resized ext H array) then Inl ValueError else
      case closest_label self (fitted ext H array) of Inl e \<Rightarrow> Inl e | Inr cl \<Rightarrow>
      case reshape2 60 80 (labels (fitted ext H array)) of Inl e \<Rightarrow> Inl e | Inr labels2 \<Rightarrow>
      if \<not> 336 < sum_list (sum_labels_vertical labels2 cl)
      then Inr ((None, length H), H @ [H ! array, resized ext H array]) else
      case contour (sum_labels_vertical labels2 cl) (sum_labels_horizontal labels2 cl) of
        Inl e \<Rightarrow> Inl e | Inr box \<Rightarrow>
      case draw_rectangle (H ! array) box (as_uint8 (border_color self)) of
        Inl e \<Rightarrow> Inl e
      | Inr drawn \<Rightarrow>
          Inr ((Some (real (fst box + fst (snd box)) / 2), length H),
               H @ [drawn, resized ext H array]))"
  using assms
  by (simp add: dowork_def np_copy_def alloc_def resized_def fitted_def Let_def
        threshold_iff nth_append split: sum.splits prod.splits)

lemma dowork_cases:
  assumes pre: "dowork_pre ext H array"
  obtains
    (none) cl labels2 where
      "closest_label self (fitted ext H array) = Inr cl"
      "reshape2 60 80 (labels (fitted ext H array)) = Inr labels2"
      "sum_list (sum_labels_vertical labels2 cl) \<le> 336"
      "dowork self ext H array
         = Inr ((None, length H), H @ [H ! array, resized ext H array])"
  | (some) cl labels2 t b l rt drawn where
      "closest_label self (fitted ext H array) = Inr cl"
      "reshape2 60 80 (labels (fitted ext H array)) = Inr labels2"
      "336 < sum_list (sum_labels_vertical labels2 cl)"
      "contour (sum_labels_vertical labels2 cl) (sum_labels_horizontal labels2 cl)
         = Inr (t, b, l, rt)"
      "draw_rectangle (H ! array) (t, b, l, rt) (as_uint8 (border_color self)) = Inr drawn"
      "is_frame 240 320 drawn"
      "\<forall>r<240. \<forall>c<320. drawn ! r ! c =
          (if on_edge (t, b, l, rt) r c then as_uint8 (border_color self) else H ! array ! r ! c)"
      "dowork self ext H array
         = Inr ((Some (real (t + b) / 2), length H), H @ [drawn, resized ext H array])"
proof -
  let ?km = "fitted ext H array"
  from pre have a: "array < length H" and f: "is_frame 240 320 (H ! array)"
    and s: "is_frame 60 80 (resized ext H array)"
    and c6: "length (cluster_centers ?km) = 6" and l: "length (labels ?km) = 4800"
    and c5: "list_all (\<lambda>center. length center = 5) (cluster_centers ?km)"
    by (simp_all add: dowork_pre_def)
  from c6 have "cluster_centers ?km \<noteq> []" by auto
  from closest_label_exists [OF this c5] obtain cl where cl: "closest_label self ?km = Inr cl"
    by blast
  obtain labels2 where l2: "reshape2 60 80 (labels ?km) = Inr labels2"
    using l by (simp add: reshape2_def)
  let ?slv = "sum_labels_vertical labels2 cl" and ?slh = "sum_labels_horizontal labels2 cl"
  show thesis
  proof (cases "336 < sum_list ?slv")
    case False
    then have le: "sum_list ?slv \<le> 336" by simp
    have "dowork self ext H array = Inr ((None, length H), H @ [H ! array, resized ext H array])"
      using s cl l2 False by (simp add: dowork_unfold [OF a])
    with cl l2 le show thesis by (rule none)
  next
    case True
    then have pos: "0 < sum_list ?slv" by simp
    have "nonzero ?slv \<noteq> []" using pos by (rule nonzero_nonempty)
    moreover have "nonzero ?slh \<noteq> []" using l2 pos by (rule sum_labels_horizontal_nonzero)
    ultimately obtain box where "contour ?slv ?slh = Inr box" using contour_total by blast
    then obtain t b l rt where box: "contour ?slv ?slh = Inr (t, b, l, rt)"
      by (cases box) auto
    have lv: "length ?slv = 60" using l2 by (simp add: length_sum_labels_vertical reshape2_length)
    have lh: "length ?slh = 80" using l2 by (simp add: length_sum_labels_horizontal_reshape)
    from contour_bounds [OF box] lv lh
    have bd: "t \<le> b" "b < 240" "l \<le> rt" "rt < 320" by simp_all
    from draw_rectangle_frame [OF f bd, of "as_uint8 (border_color self)"]
    obtain drawn where d:
      "draw_rectangle (H ! array) (t, b, l, rt) (as_uint8 (border_color self)) = Inr drawn"
      "is_frame 240 320 drawn"
      "\<forall>r<240. \<forall>c<320. drawn ! r ! c =
          (if on_edge (t, b, l, rt) r c then as_uint8 (border_color self) else H ! array ! r ! c)"
      by blast
    have "dowork self ext H array
         = Inr ((Some (real (t + b) / 2), length H), H @ [drawn, resized ext H array])"
      using s cl l2 True box d(1) by (simp add: dowork_unfold [OF a])
    with cl l2 True box d show thesis by (rule some)
  qed
qed

section \<open>The solid red frame\<close>

lemma reshape2_concat_rows:
  assumes "length m = h" "\<forall>row\<in>set m. length row = w"
  shows "reshape2 h w (concat m) = Inr m"
proof -
  have len: "length (concat m) = h * w"
    using assms by (induction m arbitrary: h) auto
  have row: "take w (drop (r * w) (concat m)) = m ! r" if "r < length m" for r
    using that assms(2)
  proof (induction m arbitrary: r)
    case Nil
    then show ?case by simp
  next
    case (Cons a m)
    then show ?case by (cases r) auto
  qed
  have "map (\<lambda>r. take w (drop (r * w) (concat m))) [0..<h] = m"
    using assms(1) row by (auto intro!: nth_equalityI)
  with len show ?thesis by (simp add: reshape2_def)
qed

lemma grid_reshape: "reshape2 60 80 (labels grid_kmeans) = Inr grid"
  unfolding grid_kmeans_def by (simp add: reshape2_concat_rows grid_def)

lemma grid_pre: "dowork_pre grid_ext [red_frame] 0"
proof -
  have 1: "is_frame 240 320 red_frame"
    by (simp add: red_frame_def solid_frame_def is_frame_iff)
  have 2: "is_frame 60 80 (resized grid_ext [red_frame] 0)"
    by (simp add: resized_def resizeNPArray_def grid_ext_def nearest_resize_def is_frame_iff)
  have 3: "fitted grid_ext [red_frame] 0 = grid_kmeans"
    by (simp add: fitted_def grid_ext_def)
  have 4: "length (labels grid_kmeans) = 4800"
    using grid_reshape by (auto simp: reshape2_def split: if_splits)
  have 5: "length (cluster_centers grid_kmeans) = 6"
    "list_all (\<lambda>center. length center = 5) (cluster_centers grid_kmeans)"
    by (simp_all add: grid_kmeans_def)
  from 1 2 3 4 5 show ?thesis by (simp add: dowork_pre_def)
qed

lemma length_concat_grid: "length (concat grid) = 4800"
  using grid_reshape by (auto simp: reshape2_def grid_kmeans_def split: if_splits)

lemma grid_closest: "closest_label imageThreadRed grid_kmeans = Inr 0"
proof -
  have "list_all (\<lambda>center. length center = 5) (cluster_centers grid_kmeans)"
    by (simp add: grid_kmeans_def)
  from closest_eq [OF this, of imageThreadRed]
  have "closest imageThreadRed grid_kmeans = Inr (replicate 6 (Finite 0))"
    by (simp add: grid_kmeans_def imageThreadRed_def f64_color_distance_zero numeral_eq_Suc)
  then show ?thesis by (simp add: closest_label_def argmin_def numeral_eq_Suc)
qed

lemma sum_labels_vertical_nonzero_iff:
  assumes "r < length m"
  shows "sum_labels_vertical m cl ! r \<noteq> 0 \<longleftrightarrow> (\<exists>c<length (m ! r). m ! r ! c = cl)"
proof -
  have "sum_labels_vertical m cl ! r \<noteq> 0 \<longleftrightarrow> filter (\<lambda>l. l = cl) (m ! r) \<noteq> []"
    using assms by (simp add: sum_labels_vertical_nth)
  also have "\<dots> \<longleftrightarrow> cl \<in> set (m ! r)" by (auto simp: filter_empty_conv)
  also have "\<dots> \<longleftrightarrow> (\<exists>c<length (m ! r). m ! r ! c = cl)" by (simp add: in_set_conv_nth)
  finally show ?thesis .
qed

lemma sum_labels_horizontal_nonzero_iff:
  assumes "m \<noteq> []" "c < length (m ! 0)" "\<forall>row\<in>set m. length row = length (m ! 0)"
  shows "sum_labels_horizontal m cl ! c \<noteq> 0 \<longleftrightarrow> (\<exists>r<length m. m ! r ! c = cl)"
proof -
  from assms(1) obtain r0 rs where m: "m = r0 # rs" by (cases m) auto
  have "sum_labels_horizontal m cl ! c = length (filter (\<lambda>row. row ! c) (label_mask m cl))"
    using assms(2) m by (simp add: sum_labels_horizontal_def sum_axis0_def label_mask_def)
  then have "sum_labels_horizontal m cl ! c \<noteq> 0
      \<longleftrightarrow> (\<exists>row\<in>set (label_mask m cl). row ! c)"
    by (auto simp: filter_empty_conv)
  also have "\<dots> \<longleftrightarrow> (\<exists>r<length m. map (\<lambda>l. l = cl) (m ! r) ! c)"
    by (auto simp: label_mask_def set_conv_nth)
  also have "\<dots> \<longleftrightarrow> (\<exists>r<length m. m ! r ! c = cl)"
    using assms(2,3) by (auto simp: all_set_conv_all_nth)
  finally show ?thesis .
qed

lemma grid_nth: "r < 60 \<Longrightarrow> c < 80 \<Longrightarrow> grid ! r ! c = grid_label r c"
  by (simp add: grid_def)

lemma grid_slv: "r < 60 \<Longrightarrow> sum_labels_vertical grid 0 ! r \<noteq> 0 \<longleftrightarrow> r < 30"
proof -
  assume r: "r < 60"
  have "sum_labels_vertical grid 0 ! r \<noteq> 0 \<longleftrightarrow> (\<exists>c<80. grid_label r c = 0)"
    using r by (subst sum_labels_vertical_nonzero_iff) (auto simp: grid_def)
  also have "\<dots> \<longleftrightarrow> r < 30"
  proof
    assume "\<exists>c<80. grid_label r c = 0"
    then show "r < 30" by (auto simp: grid_label_def split: if_splits)
  next
    assume "r < 30"
    then have "(0::nat) < 80 \<and> grid_label r 0 = 0" by (simp add: grid_label_def)
    then show "\<exists>c<80. grid_label r c = 0" by blast
  qed
  finally show ?thesis .
qed

lemma grid_slh: "c < 80 \<Longrightarrow> sum_labels_horizontal grid 0 ! c \<noteq> 0 \<longleftrightarrow> c < 27"
proof -
  assume c: "c < 80"
  have "sum_labels_horizontal grid 0 ! c \<noteq> 0 \<longleftrightarrow> (\<exists>r<60. grid_label r c = 0)"
    using c by (subst sum_labels_horizontal_nonzero_iff) (auto simp: grid_def)
  also have "\<dots> \<longleftrightarrow> c < 27"
  proof
    assume "\<exists>r<60. grid_label r c = 0"
    then show "c < 27" by (auto simp: grid_label_def split: if_splits)
  next
    assume "c < 27"
    then have "(0::nat) < 60 \<and> grid_label 0 c = 0" by (simp add: grid_label_def)
    then show "\<exists>r<60. grid_label r c = 0" by blast
  qed
  finally show ?thesis .
qed

lemma grid_lengths:
  "length (sum_labels_vertical grid 0) = 60" "length (sum_labels_horizontal grid 0) = 80"
  by (simp_all add: length_sum_labels_vertical length_sum_labels_horizontal grid_def)

lemma grid_contour:
  "contour (sum_labels_vertical grid 0) (sum_labels_horizontal grid 0) = Inr (0, 116, 0, 104)"
proof -
  let ?slv = "sum_labels_vertical grid 0" and ?slh = "sum_labels_horizontal grid 0"
  have "0 \<in> set (nonzero ?slv)" "0 \<in> set (nonzero ?slh)"
    using grid_slv [of 0] grid_slh [of 0] by (simp_all add: set_nonzero grid_lengths)
  then have "nonzero ?slv \<noteq> []" "nonzero ?slh \<noteq> []" by auto
  from contour_total [OF this] obtain t b l rt where box: "contour ?slv ?slh = Inr (t, b, l, rt)"
    by (metis prod_cases4)
  from contour_spec [OF box] obtain i k j n where
    v: "t = i * 4" "b = k * 4" "l = j * 4" "rt = n * 4"
    and i: "i < 60" "?slv ! i \<noteq> 0" "\<forall>x<i. ?slv ! x = 0"
    and k: "k < 60" "?slv ! k \<noteq> 0" "\<forall>x<60. k < x \<longrightarrow> ?slv ! x = 0"
    and j: "j < 80" "?slh ! j \<noteq> 0" "\<forall>x<j. ?slh ! x = 0"
    and n: "n < 80" "?slh ! n \<noteq> 0" "\<forall>x<80. n < x \<longrightarrow> ?slh ! x = 0"
    unfolding grid_lengths by blast
  have "i = 0" using i(3) grid_slv [of 0] by (cases i) auto
  moreover have "k = 29"
  proof -
    have "k < 30" using k(1,2) grid_slv by blast
    moreover have "\<not> k < 29" using k(3) grid_slv [of 29] by auto
    ultimately show ?thesis by simp
  qed
  moreover have "j = 0" using j(3) grid_slh [of 0] by (cases j) auto
  moreover have "n = 26"
  proof -
    have "n < 27" using n(1,2) grid_slh by blast
    moreover have "\<not> n < 26" using n(3) grid_slh [of 26] by auto
    ultimately show ?thesis by simp
  qed
  ultimately show ?thesis using box v by simp
qed

lemma grid_row_count: "r < 60 \<Longrightarrow> length (filter (\<lambda>l. l = 0) (grid ! r)) = (if r < 30 then 27 else 0)"
proof -
  assume r: "r < 60"
  have split: "[0..<80] = [0..<27] @ [27..<80]"
    using upt_add_eq_append [of 0 27 53] by simp
  show ?thesis
  proof (cases "r < 30")
    case True
    have a: "filter (\<lambda>l. l = 0) (map (grid_label r) [0..<27]) = map (grid_label r) [0..<27]"
      using True by (auto simp: filter_id_conv grid_label_def)
    have b: "filter (\<lambda>l. l = 0) (map (grid_label r) [27..<80]) = []"
      by (auto simp: filter_empty_conv grid_label_def)
    show ?thesis using r True a b by (simp add: grid_def split)
  next
    case False
    have "filter (\<lambda>l. l = 0) (map (grid_label r) [0..<80]) = []"
      using False by (auto simp: filter_empty_conv grid_label_def)
    with r False show ?thesis by (simp add: grid_def)
  qed
qed

lemma grid_count: "sum_list (sum_labels_vertical grid 0) = 810"
proof -
  have "sum_labels_vertical grid 0 = map (\<lambda>r. if r < 30 then 27 else 0) [0..<60]"
  proof (rule nth_equalityI)
    show "length (sum_labels_vertical grid 0) = length (map (\<lambda>r. if r < 30 then 27 else 0) [0..<60])"
      by (simp add: grid_lengths)
    fix i assume "i < length (sum_labels_vertical grid 0)"
    then have i: "i < 60" by (simp add: grid_lengths)
    then have "i < length grid" by (simp add: grid_def)
    then have "sum_labels_vertical grid 0 ! i = length (filter (\<lambda>l. l = 0) (grid ! i))"
      by (rule sum_labels_vertical_nth)
    with i show "sum_labels_vertical grid 0 ! i = map (\<lambda>r. if r < 30 then 27 else 0) [0..<60] ! i"
      by (simp add: grid_row_count)
  qed
  also have "[0..<60] = [0..<30] @ [30..<60]"
    using upt_add_eq_append [of 0 30 30] by simp
  finally have "sum_list (sum_labels_vertical grid 0)
      = sum_list (map (\<lambda>r. if r < 30 then 27 else 0) [0..<30])
        + sum_list (map (\<lambda>r. if r < 30 then 27 else (0::nat)) [30..<60])"
    by simp
  also have "map (\<lambda>r. if r < 30 then 27 else (0::nat)) [0..<30] = map (\<lambda>r. 27) [0..<30]"
    by (rule map_cong) auto
  also have "map (\<lambda>r. if r < 30 then 27 else (0::nat)) [30..<60] = map (\<lambda>r. 0) [30..<60]"
    by (rule map_cong) auto
  finally show ?thesis by (simp add: sum_list_triv)
qed

lemma grid_fitted: "fitted grid_ext [red_frame] 0 = grid_kmeans"
  by (simp add: fitted_def grid_ext_def)

lemma grid_dowork:
  "\<exists>drawn. draw_rectangle red_frame (0, 116, 0, 104) (255, 0, 0) = Inr drawn
     \<and> dowork imageThreadRed grid_ext [red_frame] 0
         = Inr ((Some 58, 1), [red_frame, drawn, resized grid_ext [red_frame] 0])"
proof -
  have v: "as_uint8 (border_color imageThreadRed) = (255, 0, 0)"
    by (simp add: as_uint8_def imageThreadRed_def)
  from grid_pre show ?thesis
  proof (cases rule: dowork_cases [where self = imageThreadRed])
    case (none cl labels2)
    then have "cl = 0" "labels2 = grid"
      by (simp_all add: grid_fitted grid_closest grid_reshape)
    with none(3) grid_count show ?thesis by simp
  next
    case (some cl labels2 t b l rt drawn)
    then have e: "cl = 0" "labels2 = grid"
      by (simp_all add: grid_fitted grid_closest grid_reshape)
    with some(4) grid_contour have "t = 0" "b = 116" "l = 0" "rt = 104" by simp_all
    with some(5,8) v show ?thesis by simp
  qed
qed

section \<open>The properties of the analysis\<close>

lemma label_count_sum:
  "reshape2 h w (labels km) = Inr labels2 \<Longrightarrow>
     sum_list (sum_labels_vertical labels2 cl) = label_count km cl"
  by (simp add: sum_list_sum_labels_vertical reshape2_concat label_count_def)

lemma threshold_le_iff: "(real n \<le> color_threshold * real (80 * 60)) = (n \<le> 336)"
  by (simp add: color_threshold_def)

text \<open>
  C2. In every call that meets \<open>dowork_pre\<close> the analysis returns (no exception), and it
  returns \<^verbatim>\<open>None\<close> as position exactly when the number of downsampled pixels that carry
  the selected label is at most \<open>color_threshold\<close> times 80 times 60, that is at most 336.
  So 336 pixels give no detection, 337 give one, and an all-zero mask (0 pixels) gives
  \<^verbatim>\<open>None\<close> through this same test. The threshold is modelled as the real number 7/100;
  the floating-point product \<^verbatim>\<open>0.07 * 4800\<close> is 336.00000000000006, which separates the
  integer counts in the same way.
\<close>

theorem dowork_none_iff_threshold:
  assumes "dowork_pre ext H array"
  shows "\<exists>cl pos out H'.
           closest_label self (fitted ext H array) = Inr cl
         \<and> dowork self ext H array = Inr ((pos, out), H')
         \<and> (pos = None \<longleftrightarrow>
              real (label_count (fitted ext H array) cl) \<le> color_threshold * real (80 * 60))
         \<and> (pos = None \<longleftrightarrow> label_count (fitted ext H array) cl \<le> 336)"
  using assms
proof (cases rule: dowork_cases [where self = self])
  case (none cl labels2)
  from none(2) have "sum_list (sum_labels_vertical labels2 cl) = label_count (fitted ext H array) cl"
    by (rule label_count_sum)
  with none(3) have "label_count (fitted ext H array) cl \<le> 336" by simp
  with none(1,4) show ?thesis unfolding threshold_le_iff by simp
next
  case (some cl labels2 t b l rt drawn)
  from some(2) have "sum_list (sum_labels_vertical labels2 cl) = label_count (fitted ext H array) cl"
    by (rule label_count_sum)
  with some(3) have "\<not> label_count (fitted ext H array) cl \<le> 336" by simp
  with some(1,8) show ?thesis unfolding threshold_le_iff by simp
qed

theorem dowork_none_iff_threshold_witness:
  "dowork_pre grid_ext [red_frame] 0
   \<and> (\<exists>out H'. dowork imageThreadRed grid_ext [red_frame] 0 = Inr ((Some 58, out), H'))
   \<and> closest_label imageThreadRed grid_kmeans = Inr 0
   \<and> 336 < label_count grid_kmeans 0"
proof -
  from dowork_none_iff_threshold [OF grid_pre, of imageThreadRed]
  obtain cl pos out H' where
    "closest_label imageThreadRed (fitted grid_ext [red_frame] 0) = Inr cl"
    "dowork imageThreadRed grid_ext [red_frame] 0 = Inr ((pos, out), H')"
    "pos = None \<longleftrightarrow> label_count (fitted grid_ext [red_frame] 0) cl \<le> 336"
    by blast
  moreover from grid_dowork obtain drawn where
    "dowork imageThreadRed grid_ext [red_frame] 0
         = Inr ((Some 58, 1), [red_frame, drawn, resized grid_ext [red_frame] 0])" by blast
  ultimately show ?thesis using grid_pre by (auto simp: grid_fitted grid_closest)
qed



subsection \<open>The selected cluster\<close>

lemma f64_round_sqrt_eq:
  fixes s :: real
  assumes "(2 powi e) ^ 2 \<le> s" "s < (2 powi (e + 1)) ^ 2" "- 1022 \<le> e"
    and "0 \<le> real_of_int n * 2 powi (e - 52) - 2 powi (e - 53)"
    and "(real_of_int n * 2 powi (e - 52) - 2 powi (e - 53)) ^ 2 < s"
    and "s < (real_of_int n * 2 powi (e - 52) + 2 powi (e - 53)) ^ 2"
    and "\<bar>real_of_int n * 2 powi (e - 52)\<bar> < f64_huge"
  shows "f64_round (sqrt s) = Finite (of_int n * 2 powi (e - 52))"
proof (rule f64_round_eq)
  let ?y = "real_of_int n * 2 powi (e - 52)" and ?h = "2 powi (e - 53) :: real"
  have "0 \<le> ((2::real) powi e) ^ 2" by simp
  with assms(1) have "0 \<le> s" by linarith
  then have s0: "0 \<le> sqrt s" by simp
  have "2 powi e \<le> sqrt s" using assms(1) by (rule real_le_rsqrt)
  with s0 show "2 powi e \<le> \<bar>sqrt s\<bar>" by simp
  have "sqrt s < 2 powi (e + 1)" using assms(2) by (intro real_less_lsqrt) simp_all
  with s0 show "\<bar>sqrt s\<bar> < 2 powi (e + 1)" by simp
  show "- 1022 \<le> e" by (rule assms(3))
  have lo: "?y - ?h < sqrt s" using assms(5) by (rule real_less_rsqrt)
  have "0 < ?h" by simp
  with assms(4) have "0 \<le> ?y + ?h" by linarith
  then have hi: "sqrt s < ?y + ?h" using assms(6) by (intro real_less_lsqrt)
  from lo hi show "\<bar>sqrt s - ?y\<bar> < ?h" by (simp add: abs_less_iff)
  show "\<bar>?y\<bar> < f64_huge" by (rule assms(7))
qed

text \<open>The distances from black of the centres of \<open>tied_kmeans\<close>, as they are computed.\<close>

lemma tied_distances:
  "map (f64_color_distance (0, 0, 0)) (cluster_centers tied_kmeans)
     = [Finite 5, Finite 0, Finite 0, Finite 255, Finite 255, Finite 255]"
proof -
  have 25: "sqrt 25 = 5" using real_sqrt_abs [of 5] by simp
  have 255: "sqrt 65025 = 255" using real_sqrt_abs [of 255] by simp
  show ?thesis
    by (simp add: tied_kmeans_def f64_color_distance_def f64_of_int_def f64_round_numeral 25 255)
qed

text \<open>
  The doubles nearest to 444/9, 2123/9 and 357/9, and the rounded squares, sums and
  square roots of the two distances of \<open>swapped_kmeans\<close>.
\<close>

lemma swapped_values:
  "f64_value (444 / 9) = 6943049425529515 / 140737488355328"
  "f64_value (2123 / 9) = 8299602438287815 / 35184372088832"
  "f64_value (357 / 9) = 5582587038094677 / 140737488355328"
proof -
  have "f64_round (444 / 9) = Finite (6943049425529515 / 140737488355328)"
    using f64_round_eq [of 5 "444 / 9" 6943049425529515]
    by (simp add: power_int_minus f64_huge_def)
  then show "f64_value (444 / 9) = 6943049425529515 / 140737488355328"
    by (simp add: f64_value_def)
  have "f64_round (2123 / 9) = Finite (8299602438287815 / 35184372088832)"
    using f64_round_eq [of 7 "2123 / 9" 8299602438287815]
    by (simp add: power_int_minus f64_huge_def)
  then show "f64_value (2123 / 9) = 8299602438287815 / 35184372088832"
    by (simp add: f64_value_def)
  have "f64_round (357 / 9) = Finite (5582587038094677 / 140737488355328)"
    using f64_round_eq [of 5 "357 / 9" 5582587038094677]
    by (simp add: power_int_minus f64_huge_def)
  then show "f64_value (357 / 9) = 5582587038094677 / 140737488355328"
    by (simp add: f64_value_def)
qed

lemma f64_color_distance_Cons:
  "f64_color_distance (tr, tg, tb) (a # b # c # rest)
     = f64_sqrt (f64_add (f64_add (f64_square (f64_sub (Finite a) (f64_of_int tr)))
                                  (f64_square (f64_sub (Finite b) (f64_of_int tg))))
                         (f64_square (f64_sub (Finite c) (f64_of_int tb))))"
  by (simp add: f64_color_distance_def)

lemma f64_of_int_0: "f64_of_int 0 = Finite 0"
  by (simp add: f64_of_int_def)

lemma swapped_differences:
  "f64_sub (Finite (6943049425529515 / 140737488355328)) (Finite 0)
     = Finite (6943049425529515 / 140737488355328)"
  "f64_sub (Finite (8299602438287815 / 35184372088832)) (Finite 0)
     = Finite (8299602438287815 / 35184372088832)"
  "f64_sub (Finite (5582587038094677 / 140737488355328)) (Finite 0)
     = Finite (5582587038094677 / 140737488355328)"
  using f64_round_eq [of 5 "6943049425529515 / 140737488355328" 6943049425529515]
    f64_round_eq [of 7 "8299602438287815 / 35184372088832" 8299602438287815]
    f64_round_eq [of 5 "5582587038094677 / 140737488355328" 5582587038094677]
  by (simp_all add: power_int_minus f64_huge_def)

lemma swapped_squares:
  "f64_square (Finite (6943049425529515 / 140737488355328))
     = Finite (5351933932179001 / 2199023255552)"
  "f64_square (Finite (8299602438287815 / 35184372088832))
     = Finite (3823796869896925 / 68719476736)"
  "f64_square (Finite (5582587038094677 / 140737488355328))
     = Finite (1730020462326215 / 1099511627776)"
  using f64_round_eq [of 11 "6943049425529515 / 140737488355328 * (6943049425529515 / 140737488355328)"
      5351933932179001]
    f64_round_eq [of 15 "8299602438287815 / 35184372088832 * (8299602438287815 / 35184372088832)"
      7647593739793850]
    f64_round_eq [of 10 "5582587038094677 / 140737488355328 * (5582587038094677 / 140737488355328)"
      6920081849304860]
  by (simp_all add: power_int_minus f64_huge_def)

lemma swapped_sums:
  "f64_add (Finite (5351933932179001 / 2199023255552)) (Finite (3823796869896925 / 68719476736))
     = Finite (3991044805277519 / 68719476736)"
  "f64_add (Finite (3991044805277519 / 68719476736)) (Finite (1730020462326215 / 1099511627776))
     = Finite (8198342168345815 / 137438953472)"
  "f64_add (Finite (5351933932179001 / 2199023255552)) (Finite (1730020462326215 / 1099511627776))
     = Finite (8811974856831431 / 2199023255552)"
  "f64_add (Finite (8811974856831431 / 2199023255552)) (Finite (3823796869896925 / 68719476736))
     = Finite (4099171084172907 / 68719476736)"
  using f64_round_eq [of 15 "5351933932179001 / 2199023255552 + 3823796869896925 / 68719476736"
      7982089610555038]
    f64_round_eq [of 15 "3991044805277519 / 68719476736 + 1730020462326215 / 1099511627776"
      8198342168345815]
    f64_round_eq [of 11 "5351933932179001 / 2199023255552 + 1730020462326215 / 1099511627776"
      8811974856831431]
    f64_round_eq [of 15 "8811974856831431 / 2199023255552 + 3823796869896925 / 68719476736"
      8198342168345814]
  by (simp_all add: power_int_minus f64_huge_def)

lemma swapped_roots:
  "f64_sqrt (Finite (8198342168345815 / 137438953472)) = Finite (537078691964819 / 2199023255552)"
  "f64_sqrt (Finite (4099171084172907 / 68719476736)) = Finite (8593259071437103 / 35184372088832)"
  using f64_round_sqrt_eq [of 7 "8198342168345815 / 137438953472" 8593259071437104]
    f64_round_sqrt_eq [of 7 "4099171084172907 / 68719476736" 8593259071437103]
  by (simp_all add: power_int_minus f64_huge_def power2_eq_square)

lemma swapped_distances:
  "map (f64_color_distance (0, 0, 0)) (cluster_centers swapped_kmeans)
     = [Finite (537078691964819 / 2199023255552), Finite (8593259071437103 / 35184372088832),
        Finite 255, Finite 255, Finite 255, Finite 255]"
proof -
  have 0: "f64_color_distance (0, 0, 0)
             [6943049425529515 / 140737488355328, 8299602438287815 / 35184372088832,
              5582587038094677 / 140737488355328, x, y]
           = Finite (537078691964819 / 2199023255552)" for x y
    by (simp only: f64_color_distance_Cons f64_of_int_0 swapped_differences swapped_squares
          swapped_sums swapped_roots)
  have 1: "f64_color_distance (0, 0, 0)
             [6943049425529515 / 140737488355328, 5582587038094677 / 140737488355328,
              8299602438287815 / 35184372088832, x, y]
           = Finite (8593259071437103 / 35184372088832)" for x y
    by (simp only: f64_color_distance_Cons f64_of_int_0 swapped_differences swapped_squares
          swapped_sums swapped_roots)
  have 255: "sqrt 65025 = 255" using real_sqrt_abs [of 255] by simp
  have 2: "f64_color_distance (0, 0, 0) [255, 0, 0, x, y] = Finite 255"
    "f64_color_distance (0, 0, 0) [0, 255, 0, x, y] = Finite 255"
    "f64_color_distance (0, 0, 0) [0, 0, 255, x, y] = Finite 255" for x y
    by (simp_all add: f64_color_distance_def f64_of_int_def f64_round_numeral 255)
  show ?thesis
    unfolding swapped_kmeans_def swapped_values kmeans.simps list.map 0 1 2 ..
qed

text \<open>
  C4 fails on the code. The first two centres of \<open>swapped_kmeans\<close> are at the same
  Euclidean distance from the target colour black, and nearer than the other four,
  which are at distance 255. The two sums of squares are added in different orders and
  are rounded to different doubles, 59650.79012345679 and 59650.79012345678, and so are
  their square roots: \<^verbatim>\<open>argmin\<close> selects the second centre, not the first.
\<close>

theorem equidistant_centres_counterexample:
  "closest_label black_processor swapped_kmeans = Inr 1
   \<and> color_distance (0, 0, 0) (cluster_centers swapped_kmeans ! 0)
      = color_distance (0, 0, 0) (cluster_centers swapped_kmeans ! 1)
   \<and> color_distance (0, 0, 0) (cluster_centers swapped_kmeans ! 0) < 255
   \<and> map (color_distance (0, 0, 0)) (drop 2 (cluster_centers swapped_kmeans))
      = [255, 255, 255, 255]
   \<and> length (cluster_centers swapped_kmeans) = 6
   \<and> list_all (\<lambda>center. length center = 5) (cluster_centers swapped_kmeans)
   \<and> length (labels swapped_kmeans) = 4800"
proof -
  have c5: "list_all (\<lambda>center. length center = 5) (cluster_centers swapped_kmeans)"
    by (simp add: swapped_kmeans_def)
  have 1: "closest_label black_processor swapped_kmeans = Inr 1"
    using closest_eq [OF c5, of black_processor]
    by (simp add: closest_label_def black_processor_def swapped_distances argmin_def)
  have 2: "color_distance (0, 0, 0) (cluster_centers swapped_kmeans ! 0)
      = color_distance (0, 0, 0) (cluster_centers swapped_kmeans ! 1)"
    by (simp add: swapped_kmeans_def color_distance_def add.commute add.left_commute)
  have "color_distance (0, 0, 0) (cluster_centers swapped_kmeans ! 0) < sqrt (255 ^ 2)"
    unfolding color_distance_def swapped_kmeans_def
    by (simp only: prod.case nth_Cons_0 real_sqrt_less_iff swapped_values)
      (simp add: power2_eq_square)
  then have 3: "color_distance (0, 0, 0) (cluster_centers swapped_kmeans ! 0) < 255" by simp
  have 255: "sqrt 65025 = 255" using real_sqrt_abs [of 255] by simp
  have 4: "map (color_distance (0, 0, 0)) (drop 2 (cluster_centers swapped_kmeans))
      = [255, 255, 255, 255]"
    by (simp add: swapped_kmeans_def color_distance_def 255)
  have 5: "length (cluster_centers swapped_kmeans) = 6" by (simp add: swapped_kmeans_def)
  have 6: "length (labels swapped_kmeans) = 4800"
    by (simp add: swapped_kmeans_def length_concat_grid)
  from 1 2 3 4 5 c5 6 show ?thesis by blast
qed

text \<open>
  C4, amended. With at least one centre, each of five coordinates, the array \<^verbatim>\<open>closest\<close>
  holds for every centre the distance of its first three coordinates to the target
  colour as computed in double precision, none of them NaN, and \<open>closest_label\<close> returns
  a label whose computed distance is the least; every centre before it in cluster
  order has a strictly greater computed distance: among centres with the same computed
  distance the first is selected.
\<close>

theorem closest_label_min_computed_distance:
  assumes "cluster_centers km \<noteq> []"
    and "list_all (\<lambda>center. length center = 5) (cluster_centers km)"
  shows "\<exists>ds cl. closest self km = Inr ds \<and> closest_label self km = Inr cl
     \<and> length ds = length (cluster_centers km) \<and> cl < length ds
     \<and> (\<forall>j<length ds.
           ds ! j = f64_color_distance (target_color self) (cluster_centers km ! j)
         \<and> ds ! j \<noteq> NaN \<and> f64_le (ds ! cl) (ds ! j))
     \<and> (\<forall>j<cl. f64_less (ds ! cl) (ds ! j))"
proof -
  let ?ds = "map (f64_color_distance (target_color self)) (cluster_centers km)"
  have c: "closest self km = Inr ?ds" using assms(2) by (rule closest_eq)
  have "?ds \<noteq> []" using assms(1) by simp
  then obtain cl where a: "argmin ?ds = Inr cl" using argmin_total by blast
  have n: "NaN \<notin> set ?ds" by (auto dest!: sym [of NaN])
  have s: "cl < length ?ds \<and> (\<forall>j<length ?ds. f64_le (?ds ! cl) (?ds ! j))
            \<and> (\<forall>j<cl. f64_less (?ds ! cl) (?ds ! j))"
    using a n by (rule argmin_spec)
  have 1: "length ?ds = length (cluster_centers km)" by simp
  have 2: "?ds ! j = f64_color_distance (target_color self) (cluster_centers km ! j)
         \<and> ?ds ! j \<noteq> NaN \<and> f64_le (?ds ! cl) (?ds ! j)"
    if "j < length ?ds" for j
  proof -
    from s that have "f64_le (?ds ! cl) (?ds ! j)" by blast
    moreover from n that have "?ds ! j \<noteq> NaN" by (metis nth_mem)
    moreover from that have "?ds ! j = f64_color_distance (target_color self) (cluster_centers km ! j)"
      by simp
    ultimately show ?thesis by blast
  qed
  from a c have cl: "closest_label self km = Inr cl" by (simp add: closest_label_def)
  from c cl 1 2 s show ?thesis by blast
qed

theorem closest_label_min_computed_distance_witness:
  "cluster_centers tied_kmeans \<noteq> []
   \<and> list_all (\<lambda>center. length center = 5) (cluster_centers tied_kmeans)
   \<and> length (cluster_centers tied_kmeans) = 6 \<and> length (labels tied_kmeans) = 4800
   \<and> closest black_processor tied_kmeans
        = Inr [Finite 5, Finite 0, Finite 0, Finite 255, Finite 255, Finite 255]
   \<and> closest_label black_processor tied_kmeans = Inr 1"
proof -
  let ?ds = "[Finite 5, Finite 0, Finite 0, Finite 255, Finite 255, Finite 255]"
  have h: "cluster_centers tied_kmeans \<noteq> []"
    "list_all (\<lambda>center. length center = 5) (cluster_centers tied_kmeans)"
    by (simp_all add: tied_kmeans_def)
  have l: "length (cluster_centers tied_kmeans) = 6" "length (labels tied_kmeans) = 4800"
    by (simp_all add: tied_kmeans_def length_concat_grid)
  have t: "target_color black_processor = (0, 0, 0)" by (simp add: black_processor_def)
  from closest_label_min_computed_distance [OF h, of black_processor] obtain ds cl where
    c: "closest black_processor tied_kmeans = Inr ds"
    and cl: "closest_label black_processor tied_kmeans = Inr cl"
    and len: "length ds = 6" "cl < length ds"
    and d: "\<forall>j<length ds. ds ! j = f64_color_distance (0, 0, 0) (cluster_centers tied_kmeans ! j)
              \<and> ds ! j \<noteq> NaN \<and> f64_le (ds ! cl) (ds ! j)"
    and less: "\<forall>j<cl. f64_less (ds ! cl) (ds ! j)"
    unfolding t l by blast
  have "ds = map (f64_color_distance (0, 0, 0)) (cluster_centers tied_kmeans)"
    using len(1) l(1) d by (intro nth_equalityI) simp_all
  then have ds: "ds = ?ds" unfolding tied_distances .
  from len have "cl < 6" by simp
  then consider "cl = 0" | "cl = 1" | "cl = 2" | "cl = 3" | "cl = 4" | "cl = 5" by linarith
  then have "cl = 1"
  proof cases
    case 1
    from d [unfolded len(1)] have "\<forall>j<6. f64_le (ds ! cl) (ds ! j)" by blast
    then have "f64_le (ds ! cl) (ds ! 1)" by simp
    with 1 show ?thesis by (simp add: ds f64_le_def)
  next
    case 2
    then show ?thesis .
  next
    case 3
    with less have "f64_less (ds ! cl) (ds ! 1)" by simp
    with 3 show ?thesis by (simp add: ds f64_less_def)
  next
    case 4
    with less have "f64_less (ds ! cl) (ds ! 1)" by simp
    with 4 show ?thesis by (simp add: ds f64_less_def)
  next
    case 5
    with less have "f64_less (ds ! cl) (ds ! 1)" by simp
    with 5 show ?thesis by (simp add: ds f64_less_def)
  next
    case 6
    with less have "f64_less (ds ! cl) (ds ! 1)" by simp
    with 6 show ?thesis by (simp add: ds f64_less_def)
  qed
  with cl c ds h l show ?thesis by simp
qed

text \<open>
  C10. When the count of the selected label exceeds \<open>color_threshold\<close> times 4800, the
  rows and the columns with a nonzero count are not empty, the four calls of
  \<^verbatim>\<open>np.min\<close> and \<^verbatim>\<open>np.max\<close> return a value, and so does the contour computation: the
  \<^verbatim>\<open>ValueError\<close> of an empty argument cannot occur.
\<close>

theorem contour_defined_above_threshold:
  assumes "reshape2 60 80 ls = Inr labels2"
    and "real (sum_list (sum_labels_vertical labels2 cl)) > color_threshold * 4800"
  shows "nonzero (sum_labels_vertical labels2 cl) \<noteq> []
       \<and> nonzero (sum_labels_horizontal labels2 cl) \<noteq> []
       \<and> (\<exists>mnv mxv mnh mxh.
             np_min (nonzero (sum_labels_vertical labels2 cl)) = Inr mnv
           \<and> np_max (nonzero (sum_labels_vertical labels2 cl)) = Inr mxv
           \<and> np_min (nonzero (sum_labels_horizontal labels2 cl)) = Inr mnh
           \<and> np_max (nonzero (sum_labels_horizontal labels2 cl)) = Inr mxh
           \<and> contour (sum_labels_vertical labels2 cl) (sum_labels_horizontal labels2 cl)
               = Inr (mnv * 4, mxv * 4, mnh * 4, mxh * 4))"
proof -
  let ?slv = "sum_labels_vertical labels2 cl" and ?slh = "sum_labels_horizontal labels2 cl"
  from assms(2) have pos: "0 < sum_list ?slv" by (simp add: threshold_iff)
  have v: "nonzero ?slv \<noteq> []" using pos by (rule nonzero_nonempty)
  have h: "nonzero ?slh \<noteq> []" using assms(1) pos by (rule sum_labels_horizontal_nonzero)
  from v h np_min_total np_max_total obtain mnv mxv mnh mxh where
    "np_min (nonzero ?slv) = Inr mnv" "np_max (nonzero ?slv) = Inr mxv"
    "np_min (nonzero ?slh) = Inr mnh" "np_max (nonzero ?slh) = Inr mxh"
    by metis
  with v h show ?thesis by (simp add: contour_def)
qed

theorem contour_defined_above_threshold_witness:
  "reshape2 60 80 (labels grid_kmeans) = Inr grid
   \<and> real (sum_list (sum_labels_vertical grid 0)) > color_threshold * 4800
   \<and> nonzero (sum_labels_vertical grid 0) \<noteq> []
   \<and> nonzero (sum_labels_horizontal grid 0) \<noteq> []
   \<and> contour (sum_labels_vertical grid 0) (sum_labels_horizontal grid 0) = Inr (0, 116, 0, 104)"
proof -
  have t: "real (sum_list (sum_labels_vertical grid 0)) > color_threshold * 4800"
    unfolding threshold_iff grid_count by simp
  from contour_defined_above_threshold [OF grid_reshape t] grid_reshape t grid_contour
  show ?thesis by simp
qed

text \<open>
  C8. \<^verbatim>\<open>dowork\<close> leaves every object that existed before the call unchanged, the input
  frame among them; the output is a new object of the same size. When no position is
  reported the output equals the input frame. When one is reported, the output holds
  the border colour at the pixels on the four edges of the contour and the pixel of
  the input everywhere else.
\<close>

theorem dowork_output_copy:
  assumes "dowork_pre ext H array"
    and "dowork self ext H array = Inr ((pos, out), H')"
  shows "out = length H \<and> out \<noteq> array \<and> length H < length H'
       \<and> (\<forall>a<length H. H' ! a = H ! a)
       \<and> is_frame 240 320 (H' ! out)
       \<and> (pos = None \<longrightarrow> H' ! out = H ! array)
       \<and> (pos \<noteq> None \<longrightarrow>
            (\<exists>cl labels2 box.
                closest_label self (fitted ext H array) = Inr cl
              \<and> reshape2 60 80 (labels (fitted ext H array)) = Inr labels2
              \<and> contour (sum_labels_vertical labels2 cl) (sum_labels_horizontal labels2 cl)
                  = Inr box
              \<and> (\<forall>r<240. \<forall>c<320. H' ! out ! r ! c =
                    (if on_edge box r c then as_uint8 (border_color self)
                     else H ! array ! r ! c))))"
proof -
  from assms(1) have a: "array < length H" and f: "is_frame 240 320 (H ! array)"
    by (simp_all add: dowork_pre_def)
  from assms(1) show ?thesis
  proof (cases rule: dowork_cases [where self = self])
    case (none cl labels2)
    with assms(2) have "pos = None" "out = length H" "H' = H @ [H ! array, resized ext H array]"
      by simp_all
    with a f show ?thesis by (simp add: nth_append)
  next
    case (some cl labels2 t b l rt drawn)
    with assms(2) have e: "pos = Some (real (t + b) / 2)" "out = length H"
      "H' = H @ [drawn, resized ext H array]"
      by simp_all
    have d: "H' ! out = drawn" using e by (simp add: nth_append)
    have 1: "out = length H \<and> out \<noteq> array \<and> length H < length H'
       \<and> (\<forall>a<length H. H' ! a = H ! a) \<and> is_frame 240 320 (H' ! out)"
      using e a some(6) by (simp add: nth_append)
    have 2: "\<exists>cl labels2 box.
                closest_label self (fitted ext H array) = Inr cl
              \<and> reshape2 60 80 (labels (fitted ext H array)) = Inr labels2
              \<and> contour (sum_labels_vertical labels2 cl) (sum_labels_horizontal labels2 cl)
                  = Inr box
              \<and> (\<forall>r<240. \<forall>c<320. H' ! out ! r ! c =
                    (if on_edge box r c then as_uint8 (border_color self)
                     else H ! array ! r ! c))"
      using some(1,2,4,7) unfolding d by blast
    have 3: "pos \<noteq> None" using e(1) by simp
    from 1 2 3 show ?thesis by blast
  qed
qed

theorem dowork_output_copy_witness:
  "dowork_pre grid_ext [red_frame] 0
   \<and> (\<exists>out H'. dowork imageThreadRed grid_ext [red_frame] 0 = Inr ((Some 58, out), H')
        \<and> out = 1 \<and> H' ! 0 = red_frame \<and> is_frame 240 320 (H' ! out))"
proof -
  from grid_dowork obtain drawn where
    e: "dowork imageThreadRed grid_ext [red_frame] 0
         = Inr ((Some 58, 1), [red_frame, drawn, resized grid_ext [red_frame] 0])" by blast
  from dowork_output_copy [OF grid_pre e] e grid_pre show ?thesis by simp
qed

section \<open>The threads and the lock\<close>

lemma init_inv: "sys_inv init"
  by (simp add: sys_inv_def init_def Queue_def qsize_def main_pending_def workers_pending_def
        workers_lock_def workers_returned_def main_in_lock_def worker_in_lock_def full_def)

lemma workers_lock_Main [simp]: "workers_lock (Some Main) wa = workers_lock None wa"
  by (simp add: workers_lock_def)

lemma workers_returned_True [simp]: "workers_returned True wa"
  by (simp add: workers_returned_def)

lemmas main_inv_defs = main_step_def sys_inv_def main_pending_def main_in_lock_def

lemma main_step_inv:
  assumes "sys_inv s" "main_step c s = Some s'"
  shows "sys_inv s'"
proof (cases "main_at s")
  case M_while
  with assms show ?thesis by (cases c) (auto simp: main_inv_defs)
next
  case M_capture
  with assms show ?thesis by (cases c) (auto simp: main_inv_defs)
next
  case M_acquire
  with assms show ?thesis by (cases c) (auto simp: main_inv_defs split: if_splits)
next
  case M_full
  with assms show ?thesis by (cases c) (auto simp: main_inv_defs split: if_splits)
next
  case M_get
  with assms show ?thesis
    by (cases c) (auto simp: main_inv_defs get_def qsize_def full_def split: list.splits)
next
  case M_task_done
  with assms show ?thesis
    by (cases c) (auto simp: main_inv_defs task_done_def qsize_def split: if_splits)
next
  case M_put
  with assms show ?thesis
    by (cases c) (auto simp: main_inv_defs put_def qsize_def full_def split: if_splits)
next
  case M_release
  with assms show ?thesis by (cases c) (auto simp: main_inv_defs split: if_splits)
next
  case M_raised
  with assms show ?thesis by (cases c) (auto simp: main_step_def)
next
  case M_raised_locked
  with assms show ?thesis by (cases c) (auto simp: main_step_def)
next
  case M_set_stop
  with assms show ?thesis by (cases c) (auto simp: main_inv_defs)
next
  case (M_join w)
  with assms show ?thesis
    by (cases c; cases w) (auto simp: main_inv_defs next_join_def split: if_splits)
next
  case M_done
  with assms show ?thesis by (cases c) (auto simp: main_step_def)
qed

lemma worker_step_cases [consumes 1, case_names while_stop while_go acquire get_empty get_item
    dowork dowork_raise task_done task_done_raise release release_continue release_raise
    release_unlocked showarray clear_output display_raise]:
  assumes "worker_step w c s = Some s'"
  obtains
    "worker_at s w = W_while" "thread_stopper s" "s' = goto w W_returned s"
  | "worker_at s w = W_while" "\<not> thread_stopper s" "s' = goto w W_acquire s"
  | "worker_at s w = W_acquire" "lock s = None"
    "s' = goto w W_get_nowait (s\<lparr>lock := Some (Worker w)\<rparr>)"
  | "worker_at s w = W_get_nowait" "items (frames s) = []" "s' = goto w W_finally_continue s"
  | x xs where "worker_at s w = W_get_nowait" "items (frames s) = x # xs"
    "s' = goto w W_dowork (s\<lparr>frames := (frames s)\<lparr>items := xs\<rparr>\<rparr>)"
  | "worker_at s w = W_dowork" "s' = goto w W_task_done s"
  | "worker_at s w = W_dowork" "s' = goto w W_finally_raise s"
  | "worker_at s w = W_task_done" "unfinished_tasks (frames s) \<noteq> 0"
    "s' = goto w W_finally
       (s\<lparr>frames := (frames s)\<lparr>unfinished_tasks := unfinished_tasks (frames s) - 1\<rparr>\<rparr>)"
  | "worker_at s w = W_task_done" "unfinished_tasks (frames s) = 0"
    "s' = goto w W_finally_raise s"
  | "worker_at s w = W_finally" "lock s \<noteq> None" "s' = goto w W_showarray (s\<lparr>lock := None\<rparr>)"
  | "worker_at s w = W_finally_continue" "lock s \<noteq> None"
    "s' = goto w W_while (s\<lparr>lock := None\<rparr>)"
  | "worker_at s w = W_finally_raise" "lock s \<noteq> None"
    "s' = goto w W_raised (s\<lparr>lock := None\<rparr>)"
  | "worker_in_lock (worker_at s w)" "lock s = None" "s' = goto w W_raised s"
  | "worker_at s w = W_showarray" "s' = goto w W_clear_output s"
  | "worker_at s w = W_clear_output" "s' = goto w W_while s"
  | "worker_at s w = W_showarray \<or> worker_at s w = W_clear_output" "s' = goto w W_raised s"
proof (cases "worker_at s w")
  case W_while
  with assms that(1,2) show ?thesis
    by (cases c) (simp_all add: worker_step_def split: if_splits)
next
  case W_acquire
  with assms that(3) show ?thesis
    by (cases c) (simp_all add: worker_step_def split: if_splits)
next
  case W_get_nowait
  with assms that(4,5) show ?thesis
    by (cases c; cases "items (frames s)") (simp_all add: worker_step_def get_nowait_def)
next
  case W_dowork
  with assms that(6,7) show ?thesis
    by (cases c) (simp_all add: worker_step_def)
next
  case W_task_done
  with assms that(8,9) show ?thesis
    by (cases c; cases "unfinished_tasks (frames s) = 0")
       (simp_all add: worker_step_def task_done_def)
next
  case W_finally
  with assms that(10,13) show ?thesis
    by (cases c; cases "lock s = None") (simp_all add: worker_step_def worker_in_lock_def)
next
  case W_finally_continue
  with assms that(11,13) show ?thesis
    by (cases c; cases "lock s = None") (simp_all add: worker_step_def worker_in_lock_def)
next
  case W_finally_raise
  with assms that(12,13) show ?thesis
    by (cases c; cases "lock s = None") (simp_all add: worker_step_def worker_in_lock_def)
next
  case W_showarray
  with assms that(14,16) show ?thesis
    by (cases c) (simp_all add: worker_step_def)
next
  case W_clear_output
  with assms that(15,16) show ?thesis
    by (cases c) (simp_all add: worker_step_def)
next
  case W_returned
  with assms show ?thesis by (cases c) (simp_all add: worker_step_def)
next
  case W_raised
  with assms show ?thesis by (cases c) (simp_all add: worker_step_def)
qed


lemma workers_lock_None: "workers_lock None wa \<Longrightarrow> \<not> worker_in_lock (wa w)"
  by (simp add: workers_lock_def)

lemma workers_lock_enter:
  "workers_lock None wa \<Longrightarrow> worker_in_lock pc \<Longrightarrow> workers_lock (Some (Worker w)) (wa(w := pc))"
  by (auto simp: workers_lock_def)

lemma workers_lock_stay:
  "workers_lock (Some (Worker w)) wa \<Longrightarrow> worker_in_lock pc \<Longrightarrow>
     workers_lock (Some (Worker w)) (wa(w := pc))"
  by (auto simp: workers_lock_def)

lemma workers_lock_leave:
  "workers_lock (Some (Worker w)) wa \<Longrightarrow> \<not> worker_in_lock pc \<Longrightarrow>
     workers_lock None (wa(w := pc))"
  by (auto simp: workers_lock_def)

lemma workers_lock_outside:
  "workers_lock l wa \<Longrightarrow> \<not> worker_in_lock (wa w) \<Longrightarrow> \<not> worker_in_lock pc \<Longrightarrow>
     workers_lock l (wa(w := pc))"
  by (auto simp: workers_lock_def)

lemma workers_pending_holder:
  "workers_lock (Some (Worker w)) wa \<Longrightarrow>
     workers_pending (wa(w := pc)) = (if pc = W_dowork \<or> pc = W_task_done then 1 else 0)"
  by (auto simp: workers_lock_def workers_pending_def worker_in_lock_def)

lemma workers_pending_holder_now:
  "workers_lock (Some (Worker w)) wa \<Longrightarrow>
     workers_pending wa = (if wa w = W_dowork \<or> wa w = W_task_done then 1 else 0)"
  using workers_pending_holder [of w wa "wa w"] by simp

lemma workers_pending_outside:
  "\<not> worker_in_lock (wa w) \<Longrightarrow> \<not> worker_in_lock pc \<Longrightarrow>
     workers_pending (wa(w := pc)) = workers_pending wa"
  by (auto simp: workers_pending_def worker_in_lock_def)

lemma workers_pending_None: "workers_lock None wa \<Longrightarrow> workers_pending wa = 0"
  by (auto simp: workers_pending_def workers_lock_def worker_in_lock_def)

lemma workers_returned_upd:
  "workers_returned stop wa \<Longrightarrow> pc \<noteq> W_returned \<or> stop \<Longrightarrow>
     workers_returned stop (wa(w := pc))"
  by (auto simp: workers_returned_def)

text \<open>A worker step that stays outside the lock and leaves all shared fields alone.\<close>

lemma inv_outside:
  assumes inv: "sys_inv s" and a: "\<not> worker_in_lock (worker_at s w)" "\<not> worker_in_lock pc"
    and r: "pc \<noteq> W_returned \<or> thread_stopper s"
  shows "sys_inv (goto w pc s)"
proof -
  from inv have wl: "workers_lock (lock s) (worker_at s)"
    and wr: "workers_returned (thread_stopper s) (worker_at s)"
    unfolding sys_inv_def by blast+
  have 1: "workers_lock (lock s) ((worker_at s)(w := pc))"
    using wl a by (rule workers_lock_outside)
  have 2: "workers_pending ((worker_at s)(w := pc)) = workers_pending (worker_at s)"
    using a by (rule workers_pending_outside)
  have 3: "workers_returned (thread_stopper s) ((worker_at s)(w := pc))"
    using wr r by (rule workers_returned_upd)
  from inv 1 2 3 show ?thesis unfolding sys_inv_def goto_def by simp
qed

text \<open>A worker step while the main thread does not hold the lock; the queue may change.\<close>

lemma workers_lock_step:
  assumes "workers_lock l wa" "l = None \<or> l = Some (Worker w)"
  shows "workers_lock (if worker_in_lock pc then Some (Worker w) else None) (wa(w := pc))"
  unfolding workers_lock_def
proof
  fix v
  show "((if worker_in_lock pc then Some (Worker w) else None) = Some (Worker v))
          = worker_in_lock ((wa(w := pc)) v)"
  proof (cases "v = w")
    case True
    then show ?thesis by simp
  next
    case False
    from assms(1) have "(l = Some (Worker v)) = worker_in_lock (wa v)"
      by (simp add: workers_lock_def)
    with assms(2) False have "\<not> worker_in_lock (wa v)" by auto
    with False show ?thesis by simp
  qed
qed

lemma workers_pending_step:
  assumes "workers_lock l wa" "l = None \<or> l = Some (Worker w)"
  shows "workers_pending (wa(w := pc)) = (if pc = W_dowork \<or> pc = W_task_done then 1 else 0)"
proof -
  have "\<not> worker_in_lock (wa v)" if "v \<noteq> w" for v
  proof -
    from assms(1) have "(l = Some (Worker v)) = worker_in_lock (wa v)"
      by (simp add: workers_lock_def)
    with assms(2) that show ?thesis by auto
  qed
  then have "wa v \<noteq> W_dowork \<and> wa v \<noteq> W_task_done" if "v \<noteq> w" for v
    using that by (auto simp: worker_in_lock_def)
  then show ?thesis by (auto simp: workers_pending_def)
qed

lemma inv_worker:
  assumes inv: "sys_inv s" and l: "lock s = None \<or> lock s = Some (Worker w)"
    and pc: "pc \<noteq> W_returned"
    and lk: "l' = (if worker_in_lock pc then Some (Worker w) else None)"
    and q: "maxsize q = 10" "qsize q \<le> 10"
      "qsize q + (if pc = W_dowork \<or> pc = W_task_done then 1 else 0) \<le> unfinished_tasks q"
  shows "sys_inv (goto w pc (s\<lparr>frames := q, lock := l'\<rparr>))"
proof -
  from inv have wl: "workers_lock (lock s) (worker_at s)"
    and wr: "workers_returned (thread_stopper s) (worker_at s)"
    and ml: "(lock s = Some Main) = main_in_lock (main_at s)"
    and rest: "main_at s \<in> {M_acquire, M_full, M_put} \<longrightarrow> freshest_frame s \<noteq> None"
      "thread_stopper s = (main_at s \<in> {M_join Red, M_join Green, M_join Blue, M_done})"
    unfolding sys_inv_def by blast+
  from l ml have nm: "\<not> main_in_lock (main_at s)" by auto
  then have mp: "main_pending (main_at s) = 0" "main_at s \<noteq> M_get" "main_at s \<noteq> M_put"
    "main_at s \<noteq> M_raised_locked"
    by (auto simp: main_pending_def main_in_lock_def)
  have 1: "workers_lock l' ((worker_at s)(w := pc))"
    unfolding lk using wl l by (rule workers_lock_step)
  have 2: "workers_pending ((worker_at s)(w := pc))
             = (if pc = W_dowork \<or> pc = W_task_done then 1 else 0)"
    using wl l by (rule workers_pending_step)
  have 3: "workers_returned (thread_stopper s) ((worker_at s)(w := pc))"
    using wr pc by (simp add: workers_returned_upd)
  have 4: "(l' = Some Main) = main_in_lock (main_at s)" using lk nm by simp
  from q mp rest 1 2 3 4 show ?thesis
    unfolding sys_inv_def goto_def by simp
qed

lemma same_lock: "lock s = l \<Longrightarrow> s\<lparr>frames := q, lock := l\<rparr> = s\<lparr>frames := q\<rparr>"
  by (cases s) simp

lemma inv_worker_locked:
  assumes inv: "sys_inv s" and l: "lock s = Some (Worker w)"
    and pc: "pc \<noteq> W_returned" "worker_in_lock pc"
    and q: "maxsize q = 10" "qsize q \<le> 10"
      "qsize q + (if pc = W_dowork \<or> pc = W_task_done then 1 else 0) \<le> unfinished_tasks q"
  shows "sys_inv (goto w pc (s\<lparr>frames := q\<rparr>))"
proof -
  have "sys_inv (goto w pc (s\<lparr>frames := q, lock := Some (Worker w)\<rparr>))"
    using inv l pc q by (intro inv_worker) simp_all
  then show ?thesis by (simp only: same_lock [OF l])
qed

lemma inv_worker_same:
  assumes inv: "sys_inv s" and l: "lock s = Some (Worker w)"
    and pc: "pc \<noteq> W_returned" "worker_in_lock pc"
    and q: "qsize (frames s) + (if pc = W_dowork \<or> pc = W_task_done then 1 else 0)
              \<le> unfinished_tasks (frames s)"
  shows "sys_inv (goto w pc s)"
proof -
  from inv have q': "maxsize (frames s) = 10" "qsize (frames s) \<le> 10"
    unfolding sys_inv_def by blast+
  from inv_worker_locked [OF inv l pc q' q] show ?thesis by simp
qed

lemma worker_step_inv:
  assumes inv: "sys_inv s" and st: "worker_step w c s = Some s'"
  shows "sys_inv s'"
proof -
  from inv have wl: "workers_lock (lock s) (worker_at s)"
    and q: "maxsize (frames s) = 10" "qsize (frames s) \<le> 10"
      "qsize (frames s) + main_pending (main_at s) + workers_pending (worker_at s)
         \<le> unfinished_tasks (frames s)"
    unfolding sys_inv_def by blast+
  have holder: "lock s = Some (Worker w)" if "worker_in_lock (worker_at s w)"
    using wl that by (simp add: workers_lock_def)
  have pend: "workers_pending (worker_at s) = 1"
    if "worker_at s w = W_dowork \<or> worker_at s w = W_task_done"
    using that by (auto simp: workers_pending_def)
  have q0: "qsize (frames s) + 0 \<le> unfinished_tasks (frames s)" using q(3) by simp
  from st show ?thesis
  proof (cases rule: worker_step_cases)
    case while_stop
    with inv show ?thesis by (simp add: inv_outside worker_in_lock_def)
  next
    case while_go
    with inv show ?thesis by (simp add: inv_outside worker_in_lock_def)
  next
    case acquire
    have "sys_inv (goto w W_get_nowait (s\<lparr>frames := frames s, lock := Some (Worker w)\<rparr>))"
      using inv acquire(2) q(1,2) q0 by (intro inv_worker) (simp_all add: worker_in_lock_def)
    with acquire(3) show ?thesis by simp
  next
    case get_empty
    then have l: "lock s = Some (Worker w)" by (intro holder) (simp add: worker_in_lock_def)
    have "sys_inv (goto w W_finally_continue s)"
      using inv l q0 by (intro inv_worker_same) (simp_all add: worker_in_lock_def)
    with get_empty(3) show ?thesis by simp
  next
    case (get_item x xs)
    then have l: "lock s = Some (Worker w)" by (intro holder) (simp add: worker_in_lock_def)
    have "sys_inv (goto w W_dowork (s\<lparr>frames := (frames s)\<lparr>items := xs\<rparr>\<rparr>))"
      using inv l q get_item(2)
      by (intro inv_worker_locked) (simp_all add: worker_in_lock_def qsize_def)
    with get_item(3) show ?thesis by simp
  next
    case dowork
    then have l: "lock s = Some (Worker w)" by (intro holder) (simp add: worker_in_lock_def)
    have "sys_inv (goto w W_task_done s)"
      using inv l q pend dowork(1) by (intro inv_worker_same) (simp_all add: worker_in_lock_def)
    with dowork(2) show ?thesis by simp
  next
    case dowork_raise
    then have l: "lock s = Some (Worker w)" by (intro holder) (simp add: worker_in_lock_def)
    have "sys_inv (goto w W_finally_raise s)"
      using inv l q0 by (intro inv_worker_same) (simp_all add: worker_in_lock_def)
    with dowork_raise(2) show ?thesis by simp
  next
    case task_done
    then have l: "lock s = Some (Worker w)" by (intro holder) (simp add: worker_in_lock_def)
    have "sys_inv (goto w W_finally
       (s\<lparr>frames := (frames s)\<lparr>unfinished_tasks := unfinished_tasks (frames s) - 1\<rparr>\<rparr>))"
      using inv l q pend task_done(1,2)
      by (intro inv_worker_locked) (simp_all add: worker_in_lock_def qsize_def)
    with task_done(3) show ?thesis by simp
  next
    case task_done_raise
    then have l: "lock s = Some (Worker w)" by (intro holder) (simp add: worker_in_lock_def)
    have "sys_inv (goto w W_finally_raise s)"
      using inv l q0 by (intro inv_worker_same) (simp_all add: worker_in_lock_def)
    with task_done_raise(3) show ?thesis by simp
  next
    case release
    then have l: "lock s = Some (Worker w)" by (intro holder) (simp add: worker_in_lock_def)
    have "sys_inv (goto w W_showarray (s\<lparr>frames := frames s, lock := None\<rparr>))"
      using inv l q(1,2) q0 by (intro inv_worker) (simp_all add: worker_in_lock_def)
    with release(3) show ?thesis by (simp add: goto_def)
  next
    case release_continue
    then have l: "lock s = Some (Worker w)" by (intro holder) (simp add: worker_in_lock_def)
    have "sys_inv (goto w W_while (s\<lparr>frames := frames s, lock := None\<rparr>))"
      using inv l q(1,2) q0 by (intro inv_worker) (simp_all add: worker_in_lock_def)
    with release_continue(3) show ?thesis by (simp add: goto_def)
  next
    case release_raise
    then have l: "lock s = Some (Worker w)" by (intro holder) (simp add: worker_in_lock_def)
    have "sys_inv (goto w W_raised (s\<lparr>frames := frames s, lock := None\<rparr>))"
      using inv l q(1,2) q0 by (intro inv_worker) (simp_all add: worker_in_lock_def)
    with release_raise(3) show ?thesis by (simp add: goto_def)
  next
    case release_unlocked
    with holder show ?thesis by simp
  next
    case showarray
    with inv show ?thesis by (simp add: inv_outside worker_in_lock_def)
  next
    case clear_output
    with inv show ?thesis by (simp add: inv_outside worker_in_lock_def)
  next
    case display_raise
    with inv show ?thesis by (auto simp: inv_outside worker_in_lock_def)
  qed
qed

lemma step_inv: "sys_inv s \<Longrightarrow> step e s = Some s' \<Longrightarrow> sys_inv s'"
proof (cases e)
  case (Pair t c)
  assume "sys_inv s" "step e s = Some s'"
  with Pair show ?thesis by (cases t) (auto intro: main_step_inv worker_step_inv)
qed

lemma run_inv: "sys_inv s \<Longrightarrow> run es s = Some s' \<Longrightarrow> sys_inv s'"
proof (induction es arbitrary: s)
  case Nil
  then show ?case by simp
next
  case (Cons e es)
  from Cons.prems(2) obtain s1 where 1: "step e s = Some s1" and 2: "run es s1 = Some s'"
    by (auto split: option.splits)
  from Cons.prems(1) 1 have "sys_inv s1" by (rule step_inv)
  then show ?case using 2 by (rule Cons.IH)
qed

lemma reachable_inv: "reachable s \<Longrightarrow> sys_inv s"
  unfolding reachable_def using run_inv [OF init_inv] by blast

text \<open>
  The statements of the main thread between \<^verbatim>\<open>acquire\<close> and \<^verbatim>\<open>release\<close> compute
  \<open>push_block\<close>, and in a reachable state none of them blocks or raises: \<^verbatim>\<open>get\<close> is
  called on a full queue and \<^verbatim>\<open>put\<close> on one that is not full.
\<close>

lemma locked_block_is_push_block:
  assumes "main_at s = M_full" "freshest_frame s = Some f"
    and "lock s = Some Main" "push_block (frames s) f = Inr q'"
  shows "\<exists>n. run (replicate n (Main, Go)) s
           = Some (s\<lparr>frames := q', lock := None, main_at := M_while\<rparr>)"
proof (cases "full (frames s)")
  case True
  with assms(4) obtain x q1 where g: "get (frames s) = Inr (x, q1)" and t: "task_done q1 = Inr q'"
    by (auto simp: push_block_def split: sum.splits)
  have "run (replicate 4 (Main, Go)) s
          = Some (s\<lparr>frames := q', lock := None, main_at := M_while\<rparr>)"
    using assms(1,3) True g t by (simp add: numeral_eq_Suc main_step_def)
  then show ?thesis by blast
next
  case False
  with assms(4) have p: "put (frames s) f = Inr q'" by (simp add: push_block_def)
  have "run (replicate 3 (Main, Go)) s
          = Some (s\<lparr>frames := q', lock := None, main_at := M_while\<rparr>)"
    using assms(1,2,3) False p by (simp add: numeral_eq_Suc main_step_def)
  then show ?thesis by blast
qed

lemma locked_block_never_blocks:
  assumes "reachable s" "main_at s \<in> {M_full, M_get, M_task_done, M_put, M_release}"
  shows "\<exists>s'. step (Main, Go) s = Some s' \<and> main_at s' \<noteq> M_raised
              \<and> main_at s' \<noteq> M_raised_locked"
proof -
  from assms(1) have inv: "sys_inv s" by (rule reachable_inv)
  from assms(2) consider "main_at s = M_full" | "main_at s = M_get" | "main_at s = M_task_done"
    | "main_at s = M_put" | "main_at s = M_release" by auto
  then show ?thesis
  proof cases
    case 1
    then show ?thesis by (simp add: main_step_def)
  next
    case 2
    with inv have "full (frames s)" "maxsize (frames s) = 10" by (simp_all add: sys_inv_def)
    then obtain x xs where "items (frames s) = x # xs"
      by (cases "items (frames s)") (auto simp: full_def qsize_def)
    with 2 show ?thesis by (simp add: main_step_def get_def)
  next
    case 3
    with inv have "unfinished_tasks (frames s) \<noteq> 0"
      by (auto simp: sys_inv_def main_pending_def)
    with 3 show ?thesis by (simp add: main_step_def task_done_def)
  next
    case 4
    with inv have "\<not> full (frames s)" "freshest_frame s \<noteq> None" by (simp_all add: sys_inv_def)
    with 4 show ?thesis by (auto simp: main_step_def put_def)
  next
    case 5
    with inv have "lock s = Some Main" by (simp add: sys_inv_def main_in_lock_def)
    with 5 show ?thesis by (simp add: main_step_def)
  qed
qed

lemma inv_accesses:
  assumes "sys_inv s" "accesses_queue s t"
  shows "lock s = Some t"
proof (cases t)
  case Main
  with assms show ?thesis
    by (auto simp: sys_inv_def accesses_queue_def main_in_lock_def)
next
  case (Worker w)
  from assms(1) have "(lock s = Some (Worker w)) = worker_in_lock (worker_at s w)"
    unfolding sys_inv_def workers_lock_def by blast
  with assms(2) Worker show ?thesis
    by (auto simp: accesses_queue_def worker_in_lock_def)
qed

text \<open>
  C5. In every reachable state, whatever the interleaving of the main thread and the
  three processors, the queue holds between 0 and 10 frames (its length is a natural
  number and at most \<open>maxsize\<close> = 10); a thread that stands at a statement touching the
  queue holds the lock; and no two threads stand at such statements at once.
\<close>

theorem queue_bounded_and_serialized:
  assumes "reachable s"
  shows "maxsize (frames s) = 10 \<and> qsize (frames s) \<le> 10
       \<and> (\<forall>t. accesses_queue s t \<longrightarrow> lock s = Some t)
       \<and> (\<forall>t t'. accesses_queue s t \<and> accesses_queue s t' \<longrightarrow> t = t')"
proof -
  from assms have inv: "sys_inv s" by (rule reachable_inv)
  then have "maxsize (frames s) = 10" "qsize (frames s) \<le> 10"
    unfolding sys_inv_def by blast+
  moreover have a: "\<forall>t. accesses_queue s t \<longrightarrow> lock s = Some t"
    using inv inv_accesses by blast
  moreover have "\<forall>t t'. accesses_queue s t \<and> accesses_queue s t' \<longrightarrow> t = t'"
  proof (intro allI impI)
    fix t t' assume "accesses_queue s t \<and> accesses_queue s t'"
    with a have "lock s = Some t" "lock s = Some t'" by blast+
    then show "t = t'" by simp
  qed
  ultimately show ?thesis by blast
qed

lemma run_red_polls:
  "run [(Worker Red, Go), (Worker Red, Go)] (init :: nat system)
     = Some (goto Red W_get_nowait (init\<lparr>lock := Some (Worker Red)\<rparr>))"
  by (simp add: worker_step_def init_def goto_def)

theorem queue_bounded_and_serialized_witness:
  "reachable (goto Red W_get_nowait ((init :: nat system)\<lparr>lock := Some (Worker Red)\<rparr>))
   \<and> accesses_queue (goto Red W_get_nowait ((init :: nat system)\<lparr>lock := Some (Worker Red)\<rparr>))
        (Worker Red)
   \<and> \<not> accesses_queue (goto Red W_get_nowait ((init :: nat system)\<lparr>lock := Some (Worker Red)\<rparr>))
        Main"
proof -
  let ?s = "goto Red W_get_nowait ((init :: nat system)\<lparr>lock := Some (Worker Red)\<rparr>)"
  have r: "reachable ?s" unfolding reachable_def using run_red_polls by blast
  have a: "accesses_queue ?s (Worker Red)" by (simp add: accesses_queue_def goto_def)
  from queue_bounded_and_serialized [OF r] a have "\<not> accesses_queue ?s Main" by blast
  with r a show ?thesis by simp
qed

lemma run_one_frame:
  "run one_frame_trace init
     = Some \<lparr>frames = \<lparr>items = [], maxsize = 10, unfinished_tasks = 1\<rparr>,
             lock = Some (Worker Red), thread_stopper = False, freshest_frame = Some 1,
             main_at = M_while, worker_at = (\<lambda>w. W_while)(Red := W_dowork)\<rparr>"
  by (simp add: one_frame_trace_def main_step_def worker_step_def init_def goto_def Queue_def
        full_def qsize_def put_def get_nowait_def)

text \<open>
  C6 fails on the code: once the red processor has taken a frame it stands at
  \<^verbatim>\<open>self.dowork(self.incoming)\<close>, the clustering of 4800 samples, and still holds the lock.
\<close>

theorem analysis_under_lock_counterexample:
  "\<exists>s. run one_frame_trace init = Some s \<and> worker_at s Red = W_dowork
       \<and> lock s = Some (Worker Red)"
  by (simp add: run_one_frame)

text \<open>
  C6, amended. A processor holds the lock from \<^verbatim>\<open>get_nowait\<close> through the per-frame
  analysis \<^verbatim>\<open>dowork\<close> and \<^verbatim>\<open>task_done\<close>; it does not hold it during the display
  (\<^verbatim>\<open>showarray\<close>, \<^verbatim>\<open>clear_output\<close>).
\<close>

theorem worker_lock_extent:
  assumes "reachable s"
  shows "(worker_at s w \<in> {W_get_nowait, W_dowork, W_task_done} \<longrightarrow> lock s = Some (Worker w))
       \<and> (worker_at s w \<in> {W_showarray, W_clear_output} \<longrightarrow> lock s \<noteq> Some (Worker w))"
proof -
  from assms have "sys_inv s" by (rule reachable_inv)
  then have "(lock s = Some (Worker w)) = worker_in_lock (worker_at s w)"
    unfolding sys_inv_def workers_lock_def by blast
  then show ?thesis by (auto simp: worker_in_lock_def)
qed

theorem worker_lock_extent_witness:
  "\<exists>s. run (one_frame_trace @ [(Worker Red, Go), (Worker Red, Go), (Worker Red, Go)]) init = Some s
     \<and> reachable s \<and> worker_at s Red = W_showarray \<and> lock s = None"
proof -
  let ?es = "one_frame_trace @ [(Worker Red, Go), (Worker Red, Go), (Worker Red, Go)]"
  have e: "run ?es init
     = Some \<lparr>frames = \<lparr>items = [], maxsize = 10, unfinished_tasks = 0\<rparr>,
             lock = None, thread_stopper = False, freshest_frame = Some 1,
             main_at = M_while, worker_at = (\<lambda>w. W_while)(Red := W_showarray)\<rparr>"
    by (simp add: one_frame_trace_def main_step_def worker_step_def init_def goto_def Queue_def
        full_def qsize_def put_def get_nowait_def task_done_def)
  then obtain s where s: "run ?es init = Some s" "worker_at s Red = W_showarray" "lock s = None"
    by simp
  then have r: "reachable s" unfolding reachable_def by blast
  from worker_lock_extent [OF r, of Red] s r show ?thesis by blast
qed

lemma abandoned_step:
  assumes "abandoned s" "step e s = Some s'"
  shows "abandoned s'"
proof (cases e)
  case (Pair t c)
  show ?thesis
  proof (cases t)
    case Main
    with assms Pair show ?thesis by (cases c) (simp_all add: abandoned_def main_step_def)
  next
    case (Worker w)
    with assms(2) Pair have "worker_step w c s = Some s'" by simp
    then show ?thesis
      using assms(1) by (cases rule: worker_step_cases) (auto simp: abandoned_def goto_def)
  qed
qed

lemma abandoned_run: "abandoned s \<Longrightarrow> run es s = Some s' \<Longrightarrow> abandoned s'"
proof (induction es arbitrary: s)
  case Nil
  then show ?case by simp
next
  case (Cons e es)
  from Cons.prems(2) obtain s1 where 1: "step e s = Some s1" and 2: "run es s1 = Some s'"
    by (auto split: option.splits)
  from Cons.prems(1) 1 have "abandoned s1" by (rule abandoned_step)
  then show ?case using 2 by (rule Cons.IH)
qed

subsection \<open>After the main thread has ended\<close>

lemma run_append:
  "run (es @ es') s = (case run es s of None \<Rightarrow> None | Some s1 \<Rightarrow> run es' s1)"
  by (induction es arbitrary: s) (simp_all split: option.splits)

lemma worker_step_main:
  assumes "worker_step w c s = Some s'"
  shows "main_at s' = main_at s \<and> thread_stopper s' = thread_stopper s"
  using assms by (cases rule: worker_step_cases) (simp_all add: goto_def)

lemma main_raised_run: "main_at s = M_raised \<Longrightarrow> run es s = Some s' \<Longrightarrow> main_at s' = M_raised"
proof (induction es arbitrary: s)
  case Nil
  then show ?case by simp
next
  case (Cons e es)
  from Cons.prems(2) obtain s1 where 1: "step e s = Some s1" and 2: "run es s1 = Some s'"
    by (auto split: option.splits)
  obtain t c where e: "e = (t, c)" by (cases e)
  have "main_at s1 = M_raised"
  proof (cases t)
    case Main
    with 1 e Cons.prems(1) show ?thesis by (cases c) (simp_all add: main_step_def)
  next
    case (Worker w)
    with 1 e have "worker_step w c s = Some s1" by simp
    from worker_step_main [OF this] Cons.prems(1) show ?thesis by simp
  qed
  then show ?case using 2 by (rule Cons.IH)
qed

lemma main_step_past_loop:
  assumes "main_step c s = Some s'" "\<not> past_loop (main_at s)" "past_loop (main_at s')"
  shows "c = Elapsed"
  using assms
  by (cases "main_at s"; cases c)
     (auto simp: main_step_def past_loop_def split: if_splits sum.splits option.splits prod.splits)

lemma past_loop_elapsed:
  "run es s = Some s' \<Longrightarrow> \<not> past_loop (main_at s) \<Longrightarrow> past_loop (main_at s')
     \<Longrightarrow> (Main, Elapsed) \<in> set es"
proof (induction es arbitrary: s)
  case Nil
  then show ?case by simp
next
  case (Cons e es)
  from Cons.prems(1) obtain s1 where 1: "step e s = Some s1" and 2: "run es s1 = Some s'"
    by (auto split: option.splits)
  obtain t c where e: "e = (t, c)" by (cases e)
  show ?case
  proof (cases "past_loop (main_at s1)")
    case False
    from Cons.IH [OF 2 False Cons.prems(3)] show ?thesis by simp
  next
    case True
    show ?thesis
    proof (cases t)
      case Main
      with 1 e have "main_step c s = Some s1" by simp
      from main_step_past_loop [OF this Cons.prems(2) True] e Main show ?thesis by simp
    next
      case (Worker w)
      with 1 e have "worker_step w c s = Some s1" by simp
      from worker_step_main [OF this] True Cons.prems(2) show ?thesis by simp
    qed
  qed
qed

lemma raise_ends_main:
  "run es s = Some s' \<Longrightarrow> (Main, Raise) \<in> set es \<Longrightarrow> main_at s' = M_raised"
proof (induction es arbitrary: s)
  case Nil
  then show ?case by simp
next
  case (Cons e es)
  from Cons.prems(1) obtain s1 where 1: "step e s = Some s1" and 2: "run es s1 = Some s'"
    by (auto split: option.splits)
  show ?case
  proof (cases "e = (Main, Raise)")
    case True
    with 1 have "main_at s1 = M_raised"
      by (cases "main_at s") (auto simp: main_step_def split: if_splits)
    then show ?thesis using 2 by (rule main_raised_run)
  next
    case False
    with Cons.prems(2) have "(Main, Raise) \<in> set es" by simp
    with 2 show ?thesis by (rule Cons.IH)
  qed
qed

lemma raised_by_capture:
  "sys_inv s \<Longrightarrow> run es s = Some s' \<Longrightarrow> main_at s \<noteq> M_raised \<Longrightarrow> main_at s' = M_raised
     \<Longrightarrow> (Main, Raise) \<in> set es"
proof (induction es arbitrary: s)
  case Nil
  then show ?case by simp
next
  case (Cons e es)
  from Cons.prems(2) obtain s1 where 1: "step e s = Some s1" and 2: "run es s1 = Some s'"
    by (auto split: option.splits)
  from Cons.prems(1) 1 have inv1: "sys_inv s1" by (rule step_inv)
  obtain t c where e: "e = (t, c)" by (cases e)
  show ?case
  proof (cases "main_at s1 = M_raised")
    case False
    from Cons.IH [OF inv1 2 False Cons.prems(4)] show ?thesis by simp
  next
    case True
    show ?thesis
    proof (cases t)
      case Main
      with 1 e have m: "main_step c s = Some s1" by simp
      from Cons.prems(1) have l: "(lock s = Some Main) = main_in_lock (main_at s)"
        unfolding sys_inv_def by blast
      from m True Cons.prems(3) l have "c = Raise"
        by (cases "main_at s"; cases c)
           (auto simp: main_step_def main_in_lock_def next_join_def
                 split: if_splits sum.splits option.splits prod.splits worker.splits)
      with e Main show ?thesis by simp
    next
      case (Worker w)
      with 1 e have "worker_step w c s = Some s1" by simp
      from worker_step_main [OF this] True Cons.prems(3) show ?thesis by simp
    qed
  qed
qed


lemma run_replicate_Suc:
  "step e s = Some s1 \<Longrightarrow> run (replicate (Suc n) e) s = run (replicate n e) s1"
  by simp

lemma same_but_refl: "same_but v s s"
  by (simp add: same_but_def)

lemma same_but_trans: "same_but v s s1 \<Longrightarrow> same_but v s1 s2 \<Longrightarrow> same_but v s s2"
  by (simp add: same_but_def)

lemma release_finally:
  assumes "lock s = Some (Worker v)"
    and "worker_at s v \<in> {W_finally, W_finally_continue, W_finally_raise}"
  shows "\<exists>s'. run (replicate 1 (Worker v, Go)) s = Some s' \<and> lock s' = None \<and> same_but v s s'
           \<and> (worker_at s v \<noteq> W_finally_raise \<longrightarrow> worker_at s' v \<in> {W_while, W_showarray})"
  using assms by (auto simp: worker_step_def goto_def same_but_def)

lemma release_task_done:
  assumes "sys_inv s" "lock s = Some (Worker v)" "worker_at s v = W_task_done"
  shows "\<exists>s'. run (replicate 2 (Worker v, Go)) s = Some s' \<and> lock s' = None \<and> same_but v s s'
           \<and> worker_at s' v \<in> {W_while, W_showarray}"
proof -
  from assms(1) have "qsize (frames s) + main_pending (main_at s) + workers_pending (worker_at s)
           \<le> unfinished_tasks (frames s)" unfolding sys_inv_def by blast
  moreover have "workers_pending (worker_at s) = 1"
    using assms(3) by (auto simp: workers_pending_def)
  ultimately have u: "unfinished_tasks (frames s) \<noteq> 0" by simp
  let ?s1 = "goto v W_finally
       (s\<lparr>frames := (frames s)\<lparr>unfinished_tasks := unfinished_tasks (frames s) - 1\<rparr>\<rparr>)"
  have 1: "step (Worker v, Go) s = Some ?s1"
    using assms(3) u by (simp add: worker_step_def task_done_def)
  have "lock ?s1 = Some (Worker v)" "worker_at ?s1 v \<in> {W_finally, W_finally_continue, W_finally_raise}"
    using assms(2) by (simp_all add: goto_def)
  from release_finally [OF this] obtain s' where
    2: "run (replicate 1 (Worker v, Go)) ?s1 = Some s'" "lock s' = None" "same_but v ?s1 s'"
       "worker_at s' v \<in> {W_while, W_showarray}"
    by (auto simp: goto_def)
  have "same_but v s ?s1" by (simp add: same_but_def goto_def)
  then have "same_but v s s'" using 2(3) by (rule same_but_trans)
  moreover have "run (replicate 2 (Worker v, Go)) s = Some s'"
    using run_replicate_Suc [OF 1, of 1] 2(1) by (simp add: numeral_2_eq_2)
  ultimately show ?thesis using 2(2,4) by blast
qed

lemma release_dowork:
  assumes "sys_inv s" "lock s = Some (Worker v)" "worker_at s v = W_dowork"
  shows "\<exists>s'. run (replicate 3 (Worker v, Go)) s = Some s' \<and> lock s' = None \<and> same_but v s s'
           \<and> worker_at s' v \<in> {W_while, W_showarray}"
proof -
  let ?s1 = "goto v W_task_done s"
  have 1: "step (Worker v, Go) s = Some ?s1" using assms(3) by (simp add: worker_step_def)
  from assms(1) 1 have "sys_inv ?s1" by (rule step_inv)
  moreover have "lock ?s1 = Some (Worker v)" "worker_at ?s1 v = W_task_done"
    using assms(2) by (simp_all add: goto_def)
  ultimately obtain s' where
    2: "run (replicate 2 (Worker v, Go)) ?s1 = Some s'" "lock s' = None" "same_but v ?s1 s'"
       "worker_at s' v \<in> {W_while, W_showarray}"
    using release_task_done by blast
  have "same_but v s ?s1" by (simp add: same_but_def goto_def)
  then have "same_but v s s'" using 2(3) by (rule same_but_trans)
  moreover have "run (replicate 3 (Worker v, Go)) s = Some s'"
    using run_replicate_Suc [OF 1, of 2] 2(1) by (simp add: numeral_3_eq_3 numeral_2_eq_2)
  ultimately show ?thesis using 2(2,4) by blast
qed

lemma release_get_nowait:
  assumes "sys_inv s" "lock s = Some (Worker v)" "worker_at s v = W_get_nowait"
  shows "\<exists>n s'. run (replicate n (Worker v, Go)) s = Some s' \<and> lock s' = None \<and> same_but v s s'
           \<and> worker_at s' v \<in> {W_while, W_showarray}"
proof (cases "items (frames s)")
  case Nil
  let ?s1 = "goto v W_finally_continue s"
  have 1: "step (Worker v, Go) s = Some ?s1"
    using assms(3) Nil by (simp add: worker_step_def get_nowait_def)
  have "lock ?s1 = Some (Worker v)" "worker_at ?s1 v \<in> {W_finally, W_finally_continue, W_finally_raise}"
    using assms(2) by (simp_all add: goto_def)
  from release_finally [OF this] obtain s' where
    2: "run (replicate 1 (Worker v, Go)) ?s1 = Some s'" "lock s' = None" "same_but v ?s1 s'"
       "worker_at s' v \<in> {W_while, W_showarray}"
    by (auto simp: goto_def)
  have "same_but v s ?s1" by (simp add: same_but_def goto_def)
  then have "same_but v s s'" using 2(3) by (rule same_but_trans)
  moreover have "run (replicate 2 (Worker v, Go)) s = Some s'"
    using run_replicate_Suc [OF 1, of 1] 2(1) by (simp add: numeral_2_eq_2)
  ultimately show ?thesis using 2(2,4) by blast
next
  case (Cons x xs)
  let ?s1 = "goto v W_dowork (s\<lparr>frames := (frames s)\<lparr>items := xs\<rparr>\<rparr>)"
  have 1: "step (Worker v, Go) s = Some ?s1"
    using assms(3) Cons by (simp add: worker_step_def get_nowait_def)
  from assms(1) 1 have "sys_inv ?s1" by (rule step_inv)
  moreover have "lock ?s1 = Some (Worker v)" "worker_at ?s1 v = W_dowork"
    using assms(2) by (simp_all add: goto_def)
  ultimately obtain s' where
    2: "run (replicate 3 (Worker v, Go)) ?s1 = Some s'" "lock s' = None" "same_but v ?s1 s'"
       "worker_at s' v \<in> {W_while, W_showarray}"
    using release_dowork by blast
  have "same_but v s ?s1" by (simp add: same_but_def goto_def)
  then have "same_but v s s'" using 2(3) by (rule same_but_trans)
  moreover have "run (replicate 4 (Worker v, Go)) s = Some s'"
    using run_replicate_Suc [OF 1, of 3] 2(1) by (simp add: eval_nat_numeral)
  ultimately show ?thesis using 2(2,4) by blast
qed

lemma holder_releases:
  assumes "sys_inv s" "lock s = Some (Worker v)"
  shows "\<exists>n s'. run (replicate n (Worker v, Go)) s = Some s' \<and> lock s' = None \<and> same_but v s s'
           \<and> (worker_at s v \<noteq> W_finally_raise \<longrightarrow> worker_at s' v \<in> {W_while, W_showarray})"
proof -
  from assms(1) have "(lock s = Some (Worker v)) = worker_in_lock (worker_at s v)"
    unfolding sys_inv_def workers_lock_def by blast
  with assms(2) have "worker_in_lock (worker_at s v)" by simp
  then consider "worker_at s v = W_get_nowait" | "worker_at s v = W_dowork"
    | "worker_at s v = W_task_done"
    | "worker_at s v \<in> {W_finally, W_finally_continue, W_finally_raise}"
    by (auto simp: worker_in_lock_def)
  then show ?thesis
  proof cases
    case 1
    from release_get_nowait [OF assms 1] show ?thesis by blast
  next
    case 2
    from release_dowork [OF assms 2] show ?thesis by blast
  next
    case 3
    from release_task_done [OF assms 3] show ?thesis by blast
  next
    case 4
    from release_finally [OF assms(2) 4] show ?thesis by blast
  qed
qed

lemma free_lock_polls:
  assumes "lock s = None" "\<not> thread_stopper s"
    and "worker_at s w \<in> {W_while, W_acquire, W_showarray, W_clear_output}"
  shows "\<exists>n s'. run (replicate n (Worker w, Go)) s = Some s' \<and> worker_at s' w = W_get_nowait
           \<and> lock s' = Some (Worker w)"
proof -
  from assms(3) consider "worker_at s w = W_acquire" | "worker_at s w = W_while"
    | "worker_at s w = W_clear_output" | "worker_at s w = W_showarray" by auto
  then show ?thesis
  proof cases
    case 1
    with assms(1) have "run (replicate 1 (Worker w, Go)) s
        = Some (goto w W_get_nowait (s\<lparr>lock := Some (Worker w)\<rparr>))"
      by (simp add: worker_step_def)
    then show ?thesis by (intro exI [of _ 1] exI conjI) (assumption, simp_all add: goto_def)
  next
    case 2
    with assms(1,2) have "run (replicate 2 (Worker w, Go)) s
        = Some (goto w W_get_nowait ((goto w W_acquire s)\<lparr>lock := Some (Worker w)\<rparr>))"
      by (simp add: worker_step_def goto_def numeral_2_eq_2)
    then show ?thesis by (intro exI [of _ 2] exI conjI) (assumption, simp_all add: goto_def)
  next
    case 3
    with assms(1,2) have "run (replicate 3 (Worker w, Go)) s
        = Some (goto w W_get_nowait ((goto w W_acquire (goto w W_while s))\<lparr>lock := Some (Worker w)\<rparr>))"
      by (simp add: worker_step_def goto_def eval_nat_numeral)
    then show ?thesis by (intro exI [of _ 3] exI conjI) (assumption, simp_all add: goto_def)
  next
    case 4
    with assms(1,2) have "run (replicate 4 (Worker w, Go)) s
        = Some (goto w W_get_nowait
                 ((goto w W_acquire (goto w W_while (goto w W_clear_output s)))\<lparr>lock := Some (Worker w)\<rparr>))"
      by (simp add: worker_step_def goto_def eval_nat_numeral)
    then show ?thesis by (intro exI [of _ 4] exI conjI) (assumption, simp_all add: goto_def)
  qed
qed

lemma outside_lock:
  assumes "\<not> worker_in_lock pc" "pc \<noteq> W_returned" "pc \<noteq> W_raised"
  shows "pc \<in> {W_while, W_acquire, W_showarray, W_clear_output}"
  using assms by (cases pc) (simp_all add: worker_in_lock_def)

lemma workers_poll_again:
  assumes inv: "sys_inv s" and m: "main_at s = M_raised" and st: "\<not> thread_stopper s"
    and w: "worker_at s w \<notin> {W_returned, W_raised, W_finally_raise}"
  shows "polls_again s w"
proof -
  from inv have wl: "(lock s = Some (Worker u)) = worker_in_lock (worker_at s u)" for u
    unfolding sys_inv_def workers_lock_def by blast
  from inv m have nm: "lock s \<noteq> Some Main" unfolding sys_inv_def by (simp add: main_in_lock_def)
  show ?thesis
  proof (cases "lock s")
    case None
    with wl [of w] have "\<not> worker_in_lock (worker_at s w)" by simp
    with w have "worker_at s w \<in> {W_while, W_acquire, W_showarray, W_clear_output}"
      by (intro outside_lock) simp_all
    from free_lock_polls [OF None st this] obtain n s' where
      "run (replicate n (Worker w, Go)) s = Some s'" "worker_at s' w = W_get_nowait"
      "lock s' = Some (Worker w)" by blast
    moreover have "list_all (\<lambda>e. fst e \<noteq> Main \<and> snd e = Go) (replicate n (Worker w, Go))"
      by (simp add: list_all_iff)
    ultimately show ?thesis unfolding polls_again_def by blast
  next
    case (Some t)
    with nm obtain v where v: "lock s = Some (Worker v)" by (cases t) auto
    from holder_releases [OF inv v] obtain n s1 where
      1: "run (replicate n (Worker v, Go)) s = Some s1" "lock s1 = None" "same_but v s s1"
      and pc: "worker_at s v \<noteq> W_finally_raise \<longrightarrow> worker_at s1 v \<in> {W_while, W_showarray}"
      by blast
    from 1(3) st have st1: "\<not> thread_stopper s1" by (simp add: same_but_def)
    have "worker_at s1 w \<in> {W_while, W_acquire, W_showarray, W_clear_output}"
    proof (cases "w = v")
      case True
      with w pc show ?thesis by auto
    next
      case False
      with 1(3) have "worker_at s1 w = worker_at s w" by (simp add: same_but_def)
      moreover from False v wl [of w] have "\<not> worker_in_lock (worker_at s w)" by simp
      ultimately show ?thesis using w by (intro outside_lock) simp_all
    qed
    from free_lock_polls [OF 1(2) st1 this] obtain m s' where
      2: "run (replicate m (Worker w, Go)) s1 = Some s'" "worker_at s' w = W_get_nowait"
      "lock s' = Some (Worker w)" by blast
    have "run (replicate n (Worker v, Go) @ replicate m (Worker w, Go)) s = Some s'"
      using 1(1) 2(1) by (simp add: run_append)
    moreover have "list_all (\<lambda>e. fst e \<noteq> Main \<and> snd e = Go)
        (replicate n (Worker v, Go) @ replicate m (Worker w, Go))"
      by (auto simp: list_all_iff)
    ultimately show ?thesis using 2(2,3) unfolding polls_again_def by blast
  qed
qed


text \<open>
  C7 fails on the code: after a capture that raises, the main thread is gone, and in no
  continuation is the stop signal set or does a processor's \<^verbatim>\<open>run\<close> return.
\<close>

theorem capture_failure_counterexample:
  "\<exists>s. run [(Main, Go), (Main, Raise)] init = Some s \<and> main_at s = M_raised
     \<and> \<not> (\<exists>es s'. run es s = Some s'
            \<and> (thread_stopper s' \<or> main_at s' \<noteq> M_raised \<or> (\<exists>w. worker_at s' w = W_returned)))"
proof -
  let ?s = "init\<lparr>main_at := M_raised\<rparr>"
  have 1: "run [(Main, Go), (Main, Raise)] init = Some ?s"
    by (simp add: main_step_def init_def)
  have 2: "abandoned ?s" by (simp add: abandoned_def init_def)
  have 3: "\<not> (\<exists>es s'. run es ?s = Some s'
            \<and> (thread_stopper s' \<or> main_at s' \<noteq> M_raised \<or> (\<exists>w. worker_at s' w = W_returned)))"
    using abandoned_run [OF 2] by (auto simp: abandoned_def)
  have 4: "main_at ?s = M_raised" by simp
  from 1 4 3 show ?thesis by blast
qed

text \<open>
  C7, amended. A capture that raises ends the main thread, and the main thread has ended
  in this way only after a capture has raised. From then on, whatever the processors
  do, the main thread takes no step, the stop signal is not set, no processor is joined
  and no processor's \<^verbatim>\<open>run\<close> returns; every processor that has not failed by an exception
  of its own keeps polling the queue (it can always reach \<^verbatim>\<open>get_nowait\<close> again, holding the
  lock). The stop signal is set only when the main thread stands at a \<^verbatim>\<open>join\<close> or at the
  end of the cell, and the main thread stands at \<^verbatim>\<open>thread_stopper.set()\<close>, at a \<^verbatim>\<open>join\<close> or
  at the end only in a run in which \<^verbatim>\<open>time_to_run\<close> has elapsed and no capture has raised.
\<close>

theorem capture_failure_abandons_workers:
  assumes "run es0 init = Some s"
  shows "(main_at s = M_capture \<longrightarrow> step (Main, Raise) s = Some (s\<lparr>main_at := M_raised\<rparr>))
       \<and> (main_at s = M_raised \<longrightarrow>
            (Main, Raise) \<in> set es0
          \<and> (\<forall>es s'. run es s = Some s' \<longrightarrow>
                 main_at s' = M_raised \<and> (\<forall>c. step (Main, c) s' = None)
               \<and> \<not> thread_stopper s' \<and> (\<forall>w. worker_at s' w \<noteq> W_returned)
               \<and> (\<forall>w. worker_at s' w \<notin> {W_raised, W_finally_raise} \<longrightarrow> polls_again s' w)))
       \<and> (thread_stopper s \<longrightarrow> (\<exists>w. main_at s = M_join w) \<or> main_at s = M_done)
       \<and> (past_loop (main_at s) \<longrightarrow> (Main, Elapsed) \<in> set es0 \<and> (Main, Raise) \<notin> set es0)"
proof -
  from assms have "reachable s" unfolding reachable_def by blast
  then have inv: "sys_inv s" by (rule reachable_inv)
  have A: "main_at s = M_capture \<longrightarrow> step (Main, Raise) s = Some (s\<lparr>main_at := M_raised\<rparr>)"
    by (simp add: main_step_def)
  have B: "(Main, Raise) \<in> set es0
          \<and> (\<forall>es s'. run es s = Some s' \<longrightarrow>
                 main_at s' = M_raised \<and> (\<forall>c. step (Main, c) s' = None)
               \<and> \<not> thread_stopper s' \<and> (\<forall>w. worker_at s' w \<noteq> W_returned)
               \<and> (\<forall>w. worker_at s' w \<notin> {W_raised, W_finally_raise} \<longrightarrow> polls_again s' w))"
    if m: "main_at s = M_raised"
  proof -
    have i: "main_at (init :: 'a system) \<noteq> M_raised" by (simp add: init_def)
    from raised_by_capture [OF init_inv assms i m] have 1: "(Main, Raise) \<in> set es0" .
    from inv m have "\<not> thread_stopper s" unfolding sys_inv_def by simp
    moreover from inv have "workers_returned (thread_stopper s) (worker_at s)"
      unfolding sys_inv_def by blast
    ultimately have ab: "abandoned s" using m by (auto simp: abandoned_def workers_returned_def)
    have 2: "main_at s' = M_raised \<and> (\<forall>c. step (Main, c) s' = None)
               \<and> \<not> thread_stopper s' \<and> (\<forall>w. worker_at s' w \<noteq> W_returned)
               \<and> (\<forall>w. worker_at s' w \<notin> {W_raised, W_finally_raise} \<longrightarrow> polls_again s' w)"
      if run: "run es s = Some s'" for es s'
    proof -
      from ab run have a: "abandoned s'" by (rule abandoned_run)
      from inv run have inv': "sys_inv s'" by (rule run_inv)
      from a have m': "main_at s' = M_raised" and st': "\<not> thread_stopper s'"
        and nr: "\<forall>w. worker_at s' w \<noteq> W_returned" by (simp_all add: abandoned_def)
      have ns: "step (Main, c) s' = None" for c
        using m' by (cases c) (simp_all add: main_step_def)
      have "polls_again s' w" if "worker_at s' w \<notin> {W_raised, W_finally_raise}" for w
        using inv' m' st' by (rule workers_poll_again) (use that nr in auto)
      with m' st' nr ns show ?thesis by blast
    qed
    from 1 2 show ?thesis by blast
  qed
  from inv have "thread_stopper s = (main_at s \<in> {M_join Red, M_join Green, M_join Blue, M_done})"
    unfolding sys_inv_def by blast
  then have C: "thread_stopper s \<longrightarrow> (\<exists>w. main_at s = M_join w) \<or> main_at s = M_done" by auto
  have D: "(Main, Elapsed) \<in> set es0 \<and> (Main, Raise) \<notin> set es0" if p: "past_loop (main_at s)"
  proof -
    have "\<not> past_loop (main_at (init :: 'a system))" by (simp add: init_def past_loop_def)
    from past_loop_elapsed [OF assms this p] have 1: "(Main, Elapsed) \<in> set es0" .
    have "(Main, Raise) \<notin> set es0"
    proof
      assume "(Main, Raise) \<in> set es0"
      with assms have "main_at s = M_raised" by (rule raise_ends_main)
      with p show False by (simp add: past_loop_def)
    qed
    with 1 show ?thesis by simp
  qed
  from A B C D show ?thesis by blast
qed

theorem capture_failure_abandons_workers_witness:
  "run [(Main, Go), (Main, Raise)] init = Some ((init :: nat system)\<lparr>main_at := M_raised\<rparr>)
   \<and> (\<exists>s'. run [(Worker Red, Go), (Worker Red, Go)] ((init :: nat system)\<lparr>main_at := M_raised\<rparr>)
              = Some s'
          \<and> main_at s' = M_raised \<and> \<not> thread_stopper s'
          \<and> worker_at s' Red = W_get_nowait \<and> lock s' = Some (Worker Red)
          \<and> worker_at s' Blue = W_while \<and> polls_again s' Blue)"
proof -
  let ?s = "(init :: nat system)\<lparr>main_at := M_raised\<rparr>"
  let ?s' = "goto Red W_get_nowait (?s\<lparr>lock := Some (Worker Red)\<rparr>)"
  have r: "run [(Main, Go), (Main, Raise)] init = Some ?s"
    by (simp add: main_step_def init_def)
  have m: "main_at ?s = M_raised" by simp
  have e: "run [(Worker Red, Go), (Worker Red, Go)] ?s = Some ?s'"
    by (simp add: worker_step_def init_def goto_def)
  have pc: "worker_at ?s' Red = W_get_nowait" "lock ?s' = Some (Worker Red)"
    "worker_at ?s' Blue = W_while" "worker_at ?s' Blue \<notin> {W_raised, W_finally_raise}"
    by (simp_all add: goto_def init_def)
  from capture_failure_abandons_workers [OF r] m e pc(4)
  have "main_at ?s' = M_raised \<and> \<not> thread_stopper ?s' \<and> polls_again ?s' Blue"
    by blast
  with r e pc show ?thesis by blast
qed

section \<open>Frames of one colour\<close>

lemma reshaped_uniform:
  assumes "uniform (r, g, b) f" "x \<in> set (reshaped f)"
  shows "take 3 x = [uint r, uint g, uint b]"
proof -
  from assms(2) obtain row where row: "row \<in> set (image_and_positions f)" and x: "x \<in> set row"
    by (auto simp: reshaped_def)
  from row obtain t where t: "t \<in> set (zip f (zip verticals horizontals))"
    and r: "row = (case t of (arow, vrow, hrow) \<Rightarrow>
                 map (\<lambda>((r, g, b), v, h). [uint r, uint g, uint b] @ v @ h)
                     (zip arow (zip vrow hrow)))"
    unfolding image_and_positions_def by auto
  obtain arow vrow hrow where te: "t = (arow, vrow, hrow)" by (cases t) auto
  from t te have "arow \<in> set f" by (auto dest: set_zip_leftD)
  with assms(1) have u: "\<forall>q\<in>set arow. q = (r, g, b)"
    by (auto simp: uniform_def list_all_iff)
  from x r te obtain e where e: "e \<in> set (zip arow (zip vrow hrow))"
    and xe: "x = (case e of ((r, g, b), v, h) \<Rightarrow> [uint r, uint g, uint b] @ v @ h)"
    by auto
  obtain q v h where ee: "e = (q, v, h)" by (cases e) auto
  from e ee have "q \<in> set arow" by (auto dest: set_zip_leftD)
  with u have "q = (r, g, b)" by blast
  with xe ee show ?thesis by simp
qed

lemma set_members: "set (members samples km k) \<subseteq> set samples"
  by (auto simp: members_def dest: set_zip_leftD)

lemma mean_axis0_const:
  assumes "xs \<noteq> []" "\<forall>x\<in>set xs. take 3 x = [a, b, c]"
  shows "take 3 (mean_axis0 xs) = [real_of_int a, real_of_int b, real_of_int c]"
proof -
  have n: "real (length xs) \<noteq> 0" using assms(1) by simp
  have e: "x ! 0 = a \<and> x ! 1 = b \<and> x ! 2 = c" if "x \<in> set xs" for x
  proof -
    from assms(2) that have t: "take 3 x = [a, b, c]" by blast
    have "take 3 x ! 0 = x ! 0" "take 3 x ! 1 = x ! 1" "take 3 x ! 2 = x ! 2" by simp_all
    with t show ?thesis by simp
  qed
  have s: "sum_list (map (\<lambda>x. real_of_int (x ! d)) xs) = real (length xs) * real_of_int v"
    if "\<forall>x\<in>set xs. x ! d = v" for d v
    using that by (induction xs) (simp_all add: algebra_simps)
  have "[0..<5] = [0, 1, 2, 3, 4]" by (simp add: upt_rec)
  then have "take 3 (mean_axis0 xs)
     = [sum_list (map (\<lambda>x. real_of_int (x ! 0)) xs) / real (length xs),
        sum_list (map (\<lambda>x. real_of_int (x ! 1)) xs) / real (length xs),
        sum_list (map (\<lambda>x. real_of_int (x ! 2)) xs) / real (length xs)]"
    by (simp add: mean_axis0_def)
  also have "\<dots> = [real_of_int a, real_of_int b, real_of_int c]"
  proof -
    have "sum_list (map (\<lambda>x. real_of_int (x ! 0)) xs) = real (length xs) * real_of_int a"
      "sum_list (map (\<lambda>x. real_of_int (x ! 1)) xs) = real (length xs) * real_of_int b"
      "sum_list (map (\<lambda>x. real_of_int (x ! 2)) xs) = real (length xs) * real_of_int c"
      using e by (auto intro!: s)
    with n show ?thesis by simp
  qed
  finally show ?thesis .
qed

lemma centroid_colors_uniform:
  assumes "uniform (r, g, b) f" "centroid_colors (reshaped f) km" "k < length (cluster_centers km)"
  shows "take 3 (cluster_centers km ! k) = [real_of_int (uint r), real_of_int (uint g), real_of_int (uint b)]"
proof -
  from assms(2,3) have ne: "members (reshaped f) km k \<noteq> []"
    and c: "take 3 (cluster_centers km ! k) = take 3 (mean_axis0 (members (reshaped f) km k))"
    by (simp_all add: centroid_colors_def list_all_iff)
  have "\<forall>x\<in>set (members (reshaped f) km k). take 3 x = [uint r, uint g, uint b]"
    using set_members reshaped_uniform [OF assms(1)] by blast
  from mean_axis0_const [OF ne this] c show ?thesis by simp
qed

lemma color_distance_zero:
  assumes "take 3 center = [real_of_int tr, real_of_int tg, real_of_int tb]"
  shows "color_distance (tr, tg, tb) center = 0"
proof -
  have "take 3 center ! 0 = center ! 0" "take 3 center ! 1 = center ! 1"
    "take 3 center ! 2 = center ! 2" by simp_all
  with assms have "center ! 0 = real_of_int tr" "center ! 1 = real_of_int tg"
    "center ! 2 = real_of_int tb" by simp_all
  then show ?thesis by (simp add: color_distance_def)
qed

lemma first_least_loop_spec:
  assumes "length pre = i" "best < i" "pre ! best = v"
    "\<forall>j<i. v \<le> pre ! j" "\<forall>j<best. v < pre ! j"
  shows "first_least_loop ys i best v < length (pre @ ys)
       \<and> (\<forall>j<length (pre @ ys). (pre @ ys) ! first_least_loop ys i best v \<le> (pre @ ys) ! j)
       \<and> (\<forall>j<first_least_loop ys i best v. (pre @ ys) ! first_least_loop ys i best v < (pre @ ys) ! j)"
  using assms
proof (induction ys arbitrary: pre i best v)
  case Nil
  then show ?case by simp
next
  case (Cons y ys)
  show ?case
  proof (cases "y < v")
    case True
    have "first_least_loop ys (Suc i) i y < length ((pre @ [y]) @ ys)
       \<and> (\<forall>j<length ((pre @ [y]) @ ys). ((pre @ [y]) @ ys) ! first_least_loop ys (Suc i) i y \<le> ((pre @ [y]) @ ys) ! j)
       \<and> (\<forall>j<first_least_loop ys (Suc i) i y. ((pre @ [y]) @ ys) ! first_least_loop ys (Suc i) i y < ((pre @ [y]) @ ys) ! j)"
    proof (rule Cons.IH)
      show "length (pre @ [y]) = Suc i" using Cons.prems by simp
      show "i < Suc i" by simp
      show "(pre @ [y]) ! i = y" using Cons.prems(1) by (auto simp: nth_append)
      show "\<forall>j<Suc i. y \<le> (pre @ [y]) ! j"
        using Cons.prems True by (auto simp: nth_append less_Suc_eq intro: less_imp_le order.trans)
      show "\<forall>j<i. y < (pre @ [y]) ! j"
        using Cons.prems True by (auto simp: nth_append)
    qed
    with True show ?thesis by simp
  next
    case False
    have "first_least_loop ys (Suc i) best v < length ((pre @ [y]) @ ys)
       \<and> (\<forall>j<length ((pre @ [y]) @ ys). ((pre @ [y]) @ ys) ! first_least_loop ys (Suc i) best v \<le> ((pre @ [y]) @ ys) ! j)
       \<and> (\<forall>j<first_least_loop ys (Suc i) best v. ((pre @ [y]) @ ys) ! first_least_loop ys (Suc i) best v < ((pre @ [y]) @ ys) ! j)"
    proof (rule Cons.IH)
      show "length (pre @ [y]) = Suc i" using Cons.prems by simp
      show "best < Suc i" using Cons.prems by simp
      show "(pre @ [y]) ! best = v" using Cons.prems by (simp add: nth_append)
      show "\<forall>j<Suc i. v \<le> (pre @ [y]) ! j"
        using Cons.prems False by (auto simp: nth_append less_Suc_eq)
      show "\<forall>j<best. v < (pre @ [y]) ! j"
        using Cons.prems by (auto simp: nth_append)
    qed
    with False show ?thesis by simp
  qed
qed

lemma first_least_spec:
  assumes "first_least xs = Inr k"
  shows "k < length xs \<and> (\<forall>j<length xs. xs ! k \<le> xs ! j) \<and> (\<forall>j<k. xs ! k < xs ! j)"
proof (cases xs)
  case Nil
  with assms show ?thesis by (simp add: first_least_def)
next
  case (Cons x ys)
  with assms have k: "k = first_least_loop ys 1 0 x" by (simp add: first_least_def)
  have "first_least_loop ys 1 0 x < length ([x] @ ys)
       \<and> (\<forall>j<length ([x] @ ys). ([x] @ ys) ! first_least_loop ys 1 0 x \<le> ([x] @ ys) ! j)
       \<and> (\<forall>j<first_least_loop ys 1 0 x. ([x] @ ys) ! first_least_loop ys 1 0 x < ([x] @ ys) ! j)"
    by (rule first_least_loop_spec) simp_all
  with k Cons show ?thesis by simp
qed

lemma first_least_total: "xs \<noteq> [] \<Longrightarrow> \<exists>k. first_least xs = Inr k"
  by (cases xs) (simp_all add: first_least_def)

lemma length_concat_rows:
  assumes "length m = h" "\<forall>row\<in>set m. length row = w"
  shows "length (concat m) = h * w"
  using assms by (induction m arbitrary: h) auto

lemma grid_resized_uniform: "uniform (255, 0, 0) (resized grid_ext [red_frame] 0)"
proof -
  have "is_frame 240 320 red_frame" using grid_pre by (simp add: dowork_pre_def)
  then have w: "width red_frame = 320" by (rule width_frame) simp
  have len: "length red_frame = 240" by (simp add: red_frame_def solid_frame_def)
  have px: "red_frame ! i ! j = (255, 0, 0)" if "i < 240" "j < 320" for i j
    using that by (simp add: red_frame_def solid_frame_def)
  have "q = (255, 0, 0)"
    if "row \<in> set (nearest_resize red_frame 80 60)" "q \<in> set row" for row q
  proof -
    from that(1) obtain r where r: "r < 60"
      and row: "row = map (\<lambda>c. red_frame ! (r * 240 div 60) ! (c * 320 div 80)) [0..<80]"
      by (auto simp: nearest_resize_def w len simp del: upt_rec_numeral)
    from that(2) row obtain c where c: "c < 80"
      and q: "q = red_frame ! (r * 240 div 60) ! (c * 320 div 80)"
      by (auto simp del: upt_rec_numeral)
    from r c have "r * 240 div 60 < 240" "c * 320 div 80 < 320" by simp_all
    with q show ?thesis by (simp only: px)
  qed
  then show ?thesis
    by (auto simp: uniform_def list_all_iff resized_def resizeNPArray_def grid_ext_def)
qed

lemma zip_map_same: "zip (map f xs) (map g xs) = map (\<lambda>x. (f x, g x)) xs"
  by (induction xs) simp_all

lemma verticals_eq: "verticals = map (\<lambda>r. map (\<lambda>c. [int r]) [0..<80]) [0..<60]"
proof -
  let ?xs = "replicate 80 (map int [0..<60])"
  have "transpose ?xs = map (\<lambda>i. map (\<lambda>j. ?xs ! j ! i) [0..<length ?xs]) [0..<60]"
    by (rule transpose_rectangle) simp_all
  also have "\<dots> = map (\<lambda>i. map (\<lambda>j. int i) [0..<80]) [0..<60]"
    by (rule map_cong [OF refl], rule map_cong) (simp_all del: upt_rec_numeral)
  finally show ?thesis by (simp add: verticals_def comp_def del: upt_rec_numeral)
qed

lemma horizontals_eq: "horizontals = map (\<lambda>r. map (\<lambda>c. [int c]) [0..<80]) [0..<60]"
  by (simp add: horizontals_def map_replicate_const comp_def del: upt_rec_numeral)

lemma grid_resized_eq:
  "resized grid_ext [red_frame] 0 = map (\<lambda>r. map (\<lambda>c. (255, 0, 0)) [0..<80]) [0..<60]"
proof -
  have u: "uniform (255, 0, 0) (resized grid_ext [red_frame] 0)" by (rule grid_resized_uniform)
  have f: "is_frame 60 80 (resized grid_ext [red_frame] 0)"
    using grid_pre by (simp add: dowork_pre_def)
  show ?thesis
  proof (rule nth_equalityI)
    show "length (resized grid_ext [red_frame] 0)
            = length (map (\<lambda>r. map (\<lambda>c. (255, 0, 0)) [0..<80]) [0..<60])"
      using f by (simp add: is_frame_iff)
    fix r assume "r < length (resized grid_ext [red_frame] 0)"
    then have r: "r < 60" using f by (simp add: is_frame_iff)
    have lr: "length (resized grid_ext [red_frame] 0 ! r) = 80"
      using f r by (simp add: is_frame_iff)
    have "resized grid_ext [red_frame] 0 ! r \<in> set (resized grid_ext [red_frame] 0)"
      using r f by (simp add: is_frame_iff)
    with u have all: "\<forall>q\<in>set (resized grid_ext [red_frame] 0 ! r). q = (255, 0, 0)"
      by (auto simp: uniform_def list_all_iff)
    have "resized grid_ext [red_frame] 0 ! r = map (\<lambda>c. (255, 0, 0)) [0..<80]"
      using lr all by (intro nth_equalityI) (auto simp del: upt_rec_numeral)
    with r show "resized grid_ext [red_frame] 0 ! r
                   = map (\<lambda>r. map (\<lambda>c. (255, 0, 0)) [0..<80]) [0..<60] ! r"
      by (simp del: upt_rec_numeral)
  qed
qed

lemma grid_image_and_positions:
  "image_and_positions (resized grid_ext [red_frame] 0) = red_samples"
  unfolding image_and_positions_def grid_resized_eq verticals_eq horizontals_eq red_samples_def
  by (simp add: zip_map_same del: upt_rec_numeral)

lemma grid_samples: "reshaped (resized grid_ext [red_frame] 0) = concat red_samples"
  by (simp add: reshaped_def grid_image_and_positions)

lemma zip_concat_maps:
  "zip (concat (map (\<lambda>r. map (f r) cs) rs)) (concat (map (\<lambda>r. map (g r) cs) rs))
     = concat (map (\<lambda>r. map (\<lambda>c. (f r c, g r c)) cs) rs)"
  by (induction rs) (simp_all add: zip_map_same)

lemma members_concat_maps:
  "map fst (filter (\<lambda>(x, l). l = k) (concat (map (\<lambda>r. map (\<lambda>c. (f r c, g r c)) cs) rs)))
     = concat (map (\<lambda>r. map (f r) (filter (\<lambda>c. g r c = k) cs)) rs)"
  by (induction rs) (simp_all add: filter_map comp_def)

lemma filter_upt_range:
  assumes "b \<le> n"
  shows "filter (\<lambda>c. a \<le> c \<and> c < b) [0..<n] = [a..<b]"
proof (rule sorted_distinct_set_unique)
  show "sorted (filter (\<lambda>c. a \<le> c \<and> c < b) [0..<n])" by (simp add: sorted_wrt_filter)
  show "distinct (filter (\<lambda>c. a \<le> c \<and> c < b) [0..<n])" by simp
  show "sorted [a..<b]" "distinct [a..<b]" by simp_all
  show "set (filter (\<lambda>c. a \<le> c \<and> c < b) [0..<n]) = set [a..<b]" using assms by auto
qed

lemma grid_label_block:
  assumes "k < 6" "r < 60"
  shows "filter (\<lambda>c. grid_label r c = k) [0..<80]
           = (if r \<in> set (block_rows k) then block_cols k else [])"
proof -
  from assms(1) consider "k = 0" | "k = 1" | "k = 2" | "k = 3" | "k = 4" | "k = 5" by linarith
  then show ?thesis
  proof cases
    case 1
    have "filter (\<lambda>c. grid_label r c = k) [0..<80]
            = filter (\<lambda>c. 0 \<le> c \<and> c < (if r < 30 then 27 else 0)) [0..<80]"
      unfolding 1 by (rule filter_cong [OF refl]) (auto simp: grid_label_def)
    also have "\<dots> = [0..<(if r < 30 then 27 else 0)]"
      by (rule filter_upt_range) simp
    finally show ?thesis using assms(2)
      by (simp add: 1 block_rows_def block_cols_def del: upt_rec_numeral)
  next
    case 2
    have "filter (\<lambda>c. grid_label r c = k) [0..<80]
            = filter (\<lambda>c. 27 \<le> c \<and> c < (if r < 30 then 54 else 0)) [0..<80]"
      unfolding 2 by (rule filter_cong [OF refl]) (auto simp: grid_label_def)
    also have "\<dots> = [27..<(if r < 30 then 54 else 0)]"
      by (rule filter_upt_range) simp
    finally show ?thesis using assms(2)
      by (simp add: 2 block_rows_def block_cols_def del: upt_rec_numeral)
  next
    case 3
    have "filter (\<lambda>c. grid_label r c = k) [0..<80]
            = filter (\<lambda>c. 54 \<le> c \<and> c < (if r < 30 then 80 else 0)) [0..<80]"
      unfolding 3 by (rule filter_cong [OF refl]) (auto simp: grid_label_def)
    also have "\<dots> = [54..<(if r < 30 then 80 else 0)]"
      by (rule filter_upt_range) simp
    finally show ?thesis using assms(2)
      by (simp add: 3 block_rows_def block_cols_def del: upt_rec_numeral)
  next
    case 4
    have "filter (\<lambda>c. grid_label r c = k) [0..<80]
            = filter (\<lambda>c. 0 \<le> c \<and> c < (if r < 30 then 0 else 27)) [0..<80]"
      unfolding 4 by (rule filter_cong [OF refl]) (auto simp: grid_label_def)
    also have "\<dots> = [0..<(if r < 30 then 0 else 27)]"
      by (rule filter_upt_range) simp
    finally show ?thesis using assms(2)
      by (simp add: 4 block_rows_def block_cols_def del: upt_rec_numeral)
  next
    case 5
    have "filter (\<lambda>c. grid_label r c = k) [0..<80]
            = filter (\<lambda>c. 27 \<le> c \<and> c < (if r < 30 then 0 else 54)) [0..<80]"
      unfolding 5 by (rule filter_cong [OF refl]) (auto simp: grid_label_def)
    also have "\<dots> = [27..<(if r < 30 then 0 else 54)]"
      by (rule filter_upt_range) simp
    finally show ?thesis using assms(2)
      by (simp add: 5 block_rows_def block_cols_def del: upt_rec_numeral)
  next
    case 6
    have "filter (\<lambda>c. grid_label r c = k) [0..<80]
            = filter (\<lambda>c. 54 \<le> c \<and> c < (if r < 30 then 0 else 80)) [0..<80]"
      unfolding 6 by (rule filter_cong [OF refl]) (auto simp: grid_label_def)
    also have "\<dots> = [54..<(if r < 30 then 0 else 80)]"
      by (rule filter_upt_range) simp
    finally show ?thesis using assms(2)
      by (simp add: 6 block_rows_def block_cols_def del: upt_rec_numeral)
  qed
qed

lemma concat_map_if:
  "concat (map (\<lambda>r. if P r then h r else []) rs) = concat (map h (filter P rs))"
  by (induction rs) simp_all

lemma block_rows_filter: "k < 6 \<Longrightarrow> filter (\<lambda>r. r \<in> set (block_rows k)) [0..<60] = block_rows k"
proof -
  assume "k < 6"
  have a: "filter (\<lambda>r. 0 \<le> r \<and> r < 30) [0..<60] = [0..<30]"
    by (rule filter_upt_range) simp
  have b: "filter (\<lambda>r. 30 \<le> r \<and> r < 60) [0..<60] = [30..<60]"
    by (rule filter_upt_range) simp
  show ?thesis using a b by (simp add: block_rows_def del: upt_rec_numeral)
qed

lemma grid_members_eq:
  assumes "k < 6"
  shows "members (concat red_samples) grid_kmeans k
           = concat (map (\<lambda>r. map (\<lambda>c. [255, 0, 0, int r, int c]) (block_cols k)) (block_rows k))"
proof -
  have "members (concat red_samples) grid_kmeans k
      = concat (map (\<lambda>r. map (\<lambda>c. [255, 0, 0, int r, int c])
                            (filter (\<lambda>c. grid_label r c = k) [0..<80])) [0..<60])"
    unfolding members_def red_samples_def grid_kmeans_def grid_def
    by (simp add: zip_concat_maps members_concat_maps del: upt_rec_numeral)
  also have "\<dots> = concat (map (\<lambda>r. if r \<in> set (block_rows k)
                     then map (\<lambda>c. [255, 0, 0, int r, int c]) (block_cols k) else []) [0..<60])"
    by (rule arg_cong [where f = concat], rule map_cong [OF refl])
       (simp add: grid_label_block [OF assms] del: upt_rec_numeral)
  also have "\<dots> = concat (map (\<lambda>r. map (\<lambda>c. [255, 0, 0, int r, int c]) (block_cols k))
                        (filter (\<lambda>r. r \<in> set (block_rows k)) [0..<60]))"
    by (rule concat_map_if)
  finally show ?thesis by (simp only: block_rows_filter [OF assms])
qed

lemma sum_list_concat_map:
  "sum_list (map f (concat (map (\<lambda>r. map (g r) cs) rs)))
     = sum_list (map (\<lambda>r. sum_list (map (\<lambda>c. f (g r c)) cs)) rs)"
  by (induction rs) (simp_all add: comp_def)

lemma length_concat_map:
  "length (concat (map (\<lambda>r. map (g r) cs) rs)) = length rs * length cs"
  by (induction rs) simp_all

lemma sum_list_const_real: "sum_list (map (\<lambda>x. (v::real)) xs) = real (length xs) * v"
  by (induction xs) (simp_all add: algebra_simps)

lemma mean_block:
  assumes "rs \<noteq> []" "cs \<noteq> []"
  shows "mean_axis0 (concat (map (\<lambda>r. map (\<lambda>c. [255, 0, 0, int r, int c]) cs) rs))
           = [255, 0, 0, sum_list (map real rs) / real (length rs),
              sum_list (map real cs) / real (length cs)]"
proof -
  let ?M = "concat (map (\<lambda>r. map (\<lambda>c. [255, 0, 0, int r, int c]) cs) rs)"
  have n: "real (length rs) \<noteq> 0" "real (length cs) \<noteq> 0" using assms by simp_all
  have len: "real (length ?M) = real (length rs) * real (length cs)"
    by (simp add: length_concat_map)
  have s0: "sum_list (map (\<lambda>x. real_of_int (x ! 0)) ?M)
              = real (length rs) * real (length cs) * 255"
    by (simp add: sum_list_concat_map sum_list_const_real)
  have s1: "sum_list (map (\<lambda>x. real_of_int (x ! 1)) ?M) = 0"
    by (simp add: sum_list_concat_map sum_list_const_real)
  have s2: "sum_list (map (\<lambda>x. real_of_int (x ! 2)) ?M) = 0"
    by (simp add: sum_list_concat_map sum_list_const_real)
  have s3: "sum_list (map (\<lambda>x. real_of_int (x ! 3)) ?M)
              = real (length cs) * sum_list (map real rs)"
    by (simp add: sum_list_concat_map sum_list_const_real sum_list_const_mult comp_def)
  have s4: "sum_list (map (\<lambda>x. real_of_int (x ! 4)) ?M)
              = real (length rs) * sum_list (map real cs)"
    by (simp add: sum_list_concat_map sum_list_const_real comp_def)
  have "[0..<5] = [0, 1, 2, 3, 4]" by (simp add: upt_rec)
  then have "mean_axis0 ?M
     = [sum_list (map (\<lambda>x. real_of_int (x ! 0)) ?M) / real (length ?M),
        sum_list (map (\<lambda>x. real_of_int (x ! 1)) ?M) / real (length ?M),
        sum_list (map (\<lambda>x. real_of_int (x ! 2)) ?M) / real (length ?M),
        sum_list (map (\<lambda>x. real_of_int (x ! 3)) ?M) / real (length ?M),
        sum_list (map (\<lambda>x. real_of_int (x ! 4)) ?M) / real (length ?M)]"
    unfolding mean_axis0_def by simp
  also have "\<dots> = [255, 0, 0, sum_list (map real rs) / real (length rs),
              sum_list (map real cs) / real (length cs)]"
    unfolding s0 s1 s2 s3 s4 len using n by simp
  finally show ?thesis .
qed

lemma block_sums:
  "sum_list (map real [0..<30]) = 435" "sum_list (map real [30..<60]) = 1335"
  "sum_list (map real [0..<27]) = 351" "sum_list (map real [27..<54]) = 1080"
  "sum_list (map real [54..<80]) = 1729"
proof -
  have g: "sum_list (map real [0..<n]) = real n * (real n - 1) / 2" for n
    by (induction n) (simp_all add: field_simps)
  show "sum_list (map real [0..<30]) = 435" unfolding g by simp
  show "sum_list (map real [0..<27]) = 351" unfolding g by simp
  show "sum_list (map real [30..<60]) = 1335" by simp
  show "sum_list (map real [27..<54]) = 1080" by simp
  show "sum_list (map real [54..<80]) = 1729" by simp
qed

lemma grid_centres_are_means:
  assumes "k < 6"
  shows "cluster_centers grid_kmeans ! k = mean_axis0 (members (concat red_samples) grid_kmeans k)"
proof -
  have ne: "block_rows k \<noteq> []" "block_cols k \<noteq> []"
    by (simp_all add: block_rows_def block_cols_def)
  from assms consider "k = 0" | "k = 1" | "k = 2" | "k = 3" | "k = 4" | "k = 5" by linarith
  then have "[255, 0, 0, sum_list (map real (block_rows k)) / real (length (block_rows k)),
              sum_list (map real (block_cols k)) / real (length (block_cols k))]
           = cluster_centers grid_kmeans ! k"
    by cases (simp_all add: block_rows_def block_cols_def block_sums grid_kmeans_def
                del: upt_rec_numeral)
  then show ?thesis
    unfolding grid_members_eq [OF assms] mean_block [OF ne] by simp
qed

lemma first_least_unique:
  assumes "k < length xs" "\<forall>j<length xs. j \<noteq> k \<longrightarrow> xs ! k < xs ! j"
  shows "first_least xs = Inr k"
proof -
  from assms(1) have "xs \<noteq> []" by auto
  then obtain k' where k': "first_least xs = Inr k'" using first_least_total by blast
  from first_least_spec [OF k'] assms(1) have a: "k' < length xs" "xs ! k' \<le> xs ! k" by auto
  have "k' = k"
  proof (rule ccontr)
    assume "k' \<noteq> k"
    with assms(2) a(1) have "xs ! k < xs ! k'" by blast
    with a(2) show False by simp
  qed
  with k' show ?thesis by simp
qed

lemma square_closer:
  fixes x p q :: real
  assumes "(p < q \<and> 2 * x < p + q) \<or> (q < p \<and> p + q < 2 * x)"
  shows "(x - p)\<^sup>2 < (x - q)\<^sup>2"
proof -
  have e: "(x - q)\<^sup>2 - (x - p)\<^sup>2 = (q - p) * (p + q - 2 * x)"
    by (simp add: power2_eq_square algebra_simps)
  from assms have "0 < (q - p) * (p + q - 2 * x)"
  proof
    assume "p < q \<and> 2 * x < p + q"
    then show ?thesis by (intro mult_pos_pos) simp_all
  next
    assume "q < p \<and> p + q < 2 * x"
    then show ?thesis by (intro mult_neg_neg) simp_all
  qed
  with e show ?thesis by simp
qed

lemma sample_distance_red:
  "sample_distance [255, 0, 0, int r, int c] [255, 0, 0, y, x]
     = sqrt ((real r - y)\<^sup>2 + (real c - x)\<^sup>2)"
  by (simp add: sample_distance_def)

lemma grid_nearest:
  assumes "r < 60" "c < 80"
  shows "nearest_center grid_kmeans [255, 0, 0, int r, int c] = Inr (grid_label r c)"
proof -
  let ?R1 = "(real r - 29 / 2)\<^sup>2" and ?R2 = "(real r - 89 / 2)\<^sup>2"
  let ?C1 = "(real c - 13)\<^sup>2" and ?C2 = "(real c - 40)\<^sup>2" and ?C3 = "(real c - 133 / 2)\<^sup>2"
  let ?ds = "[sqrt (?R1 + ?C1), sqrt (?R1 + ?C2), sqrt (?R1 + ?C3),
              sqrt (?R2 + ?C1), sqrt (?R2 + ?C2), sqrt (?R2 + ?C3)]"
  have ds: "map (sample_distance [255, 0, 0, int r, int c]) (cluster_centers grid_kmeans) = ?ds"
    by (simp add: grid_kmeans_def sample_distance_red)
  have rows: "r < 30 \<Longrightarrow> ?R1 < ?R2" "\<not> r < 30 \<Longrightarrow> ?R2 < ?R1"
    by (rule square_closer, simp)+
  have cols: "c < 27 \<Longrightarrow> ?C1 < ?C2" "c < 27 \<Longrightarrow> ?C1 < ?C3"
    "\<not> c < 27 \<Longrightarrow> ?C2 < ?C1" "c < 54 \<Longrightarrow> ?C2 < ?C3"
    "\<not> c < 54 \<Longrightarrow> ?C3 < ?C2" "\<not> c < 54 \<Longrightarrow> ?C3 < ?C1"
    by (rule square_closer, simp)+
  have "first_least ?ds = Inr (grid_label r c)"
  proof (rule first_least_unique)
    show "grid_label r c < length ?ds" by (simp add: grid_label_def)
    show "\<forall>j<length ?ds. j \<noteq> grid_label r c \<longrightarrow> ?ds ! grid_label r c < ?ds ! j"
    proof (intro allI impI)
      fix j assume j: "j < length ?ds" "j \<noteq> grid_label r c"
      then consider "j = 0" | "j = 1" | "j = 2" | "j = 3" | "j = 4" | "j = 5"
        by (simp add: less_Suc_eq numeral_eq_Suc) linarith
      then show "?ds ! grid_label r c < ?ds ! j"
      proof cases
        case 1
        with j(2) rows cols show ?thesis
          by (cases "r < 30"; cases "c < 27"; cases "c < 54") (simp_all add: grid_label_def)
      next
        case 2
        with j(2) rows cols show ?thesis
          by (cases "r < 30"; cases "c < 27"; cases "c < 54") (simp_all add: grid_label_def)
      next
        case 3
        with j(2) rows cols show ?thesis
          by (cases "r < 30"; cases "c < 27"; cases "c < 54") (simp_all add: grid_label_def)
      next
        case 4
        with j(2) rows cols show ?thesis
          by (cases "r < 30"; cases "c < 27"; cases "c < 54") (simp_all add: grid_label_def)
      next
        case 5
        with j(2) rows cols show ?thesis
          by (cases "r < 30"; cases "c < 27"; cases "c < 54") (simp_all add: grid_label_def)
      next
        case 6
        with j(2) rows cols show ?thesis
          by (cases "r < 30"; cases "c < 27"; cases "c < 54") (simp_all add: grid_label_def)
      qed
    qed
  qed
  then show ?thesis by (simp only: nearest_center_def ds)
qed

lemma concat_nth_rect:
  assumes "length m = h" "\<forall>row\<in>set m. length row = w" "r < h" "c < w"
  shows "concat m ! (r * w + c) = m ! r ! c"
proof -
  from reshape2_concat_rows [OF assms(1,2)]
  have m: "m = map (\<lambda>r. take w (drop (r * w) (concat m))) [0..<h]"
    and len: "length (concat m) = h * w"
    by (auto simp: reshape2_def split: if_splits)
  have "r * w \<le> h * w" using assms(3) by (intro mult_le_mono1) simp
  with len have le: "r * w \<le> length (concat m)" by simp
  have "m ! r ! c = map (\<lambda>r. take w (drop (r * w) (concat m))) [0..<h] ! r ! c"
    using m by simp
  also have "\<dots> = concat m ! (r * w + c)" using assms(3,4) le by simp
  finally show ?thesis by simp
qed

lemma lloyd_fixpoint_centroid_colors:
  "lloyd_fixpoint samples km \<Longrightarrow> centroid_colors samples km"
  by (auto simp: lloyd_fixpoint_def centroid_colors_def list_all_iff)

lemma grid_lloyd_fixpoint:
  "lloyd_fixpoint (reshaped (resized grid_ext [red_frame] 0)) grid_kmeans"
proof -
  have shape: "length red_samples = 60" "\<forall>row\<in>set red_samples. length row = 80"
    "length grid = 60" "\<forall>row\<in>set grid. length row = 80"
    by (auto simp: red_samples_def grid_def)
  have ls: "length (concat red_samples) = 4800"
    using length_concat_rows [OF shape(1,2)] by simp
  have ll: "length (labels grid_kmeans) = 4800"
    using length_concat_rows [OF shape(3,4)] by (simp add: grid_kmeans_def)
  have near: "nearest_center grid_kmeans (concat red_samples ! i) = Inr (labels grid_kmeans ! i)"
    if "i < 4800" for i
  proof -
    let ?r = "i div 80" and ?c = "i mod 80"
    from that have r: "?r < 60" and c: "?c < 80" by simp_all
    have i: "i = ?r * 80 + ?c" by simp
    have "concat red_samples ! (?r * 80 + ?c) = red_samples ! ?r ! ?c"
      using shape(1,2) r c by (rule concat_nth_rect)
    also have "\<dots> = [255, 0, 0, int ?r, int ?c]"
      using r c by (simp add: red_samples_def del: upt_rec_numeral)
    finally have s: "concat red_samples ! i = [255, 0, 0, int ?r, int ?c]" by simp
    have "concat grid ! (?r * 80 + ?c) = grid ! ?r ! ?c"
      using shape(3,4) r c by (rule concat_nth_rect)
    also have "\<dots> = grid_label ?r ?c" using r c by (rule grid_nth)
    finally have l: "labels grid_kmeans ! i = grid_label ?r ?c" by (simp add: grid_kmeans_def)
    show ?thesis unfolding s l using r c by (rule grid_nearest)
  qed
  have cent: "members (concat red_samples) grid_kmeans k \<noteq> []
     \<and> cluster_centers grid_kmeans ! k = mean_axis0 (members (concat red_samples) grid_kmeans k)"
    if "k < 6" for k
  proof -
    have "length (members (concat red_samples) grid_kmeans k)
            = length (block_rows k) * length (block_cols k)"
      unfolding grid_members_eq [OF that] by (rule length_concat_map)
    moreover have "0 < length (block_rows k)" "0 < length (block_cols k)"
      by (simp_all add: block_rows_def block_cols_def)
    ultimately have "members (concat red_samples) grid_kmeans k \<noteq> []" by auto
    with grid_centres_are_means [OF that] show ?thesis by simp
  qed
  have c6: "length (cluster_centers grid_kmeans) = 6" by (simp add: grid_kmeans_def)
  show ?thesis
    unfolding lloyd_fixpoint_def grid_samples list_all_iff c6 ls
    using ll near cent by auto
qed

lemma grid_centroid_colors:
  "centroid_colors (reshaped (resized grid_ext [red_frame] 0)) grid_kmeans"
  using grid_lloyd_fixpoint by (rule lloyd_fixpoint_centroid_colors)

lemma uniform_closest:
  assumes pre: "dowork_pre ext H array"
    and u: "uniform p (resized ext H array)"
    and t: "target_color self = rgb p"
    and c: "centroid_colors (reshaped (resized ext H array)) (fitted ext H array)"
  shows "(\<forall>j<6. color_distance (target_color self) (cluster_centers (fitted ext H array) ! j) = 0)
       \<and> closest_label self (fitted ext H array) = Inr 0"
proof -
  let ?km = "fitted ext H array"
  obtain r g b where p: "p = (r, g, b)" by (cases p) auto
  from pre have c6: "length (cluster_centers ?km) = 6"
    and c5: "list_all (\<lambda>center. length center = 5) (cluster_centers ?km)"
    by (simp_all add: dowork_pre_def)
  have tc: "target_color self = (uint r, uint g, uint b)" using t p by (simp add: rgb_def)
  have col: "take 3 (cluster_centers ?km ! j)
               = [real_of_int (uint r), real_of_int (uint g), real_of_int (uint b)]"
    if "j < 6" for j
  proof -
    from that c6 have "j < length (cluster_centers ?km)" by simp
    from centroid_colors_uniform [OF u [unfolded p] c this] show ?thesis .
  qed
  have d0: "color_distance (target_color self) (cluster_centers ?km ! j) = 0" if "j < 6" for j
    unfolding tc using col [OF that] by (rule color_distance_zero)
  have small: "\<bar>uint w\<bar> < 2 ^ 53" for w :: "8 word"
  proof -
    have "uint w < 2 ^ LENGTH(8)" by (rule uint_bounded)
    moreover have "0 \<le> uint w" by simp
    ultimately show ?thesis by simp
  qed
  have f0: "f64_color_distance (target_color self) (cluster_centers ?km ! j) = Finite 0"
    if "j < 6" for j
    unfolding tc using col [OF that] small small small by (rule f64_color_distance_zero)
  have "map (f64_color_distance (target_color self)) (cluster_centers ?km) = replicate 6 (Finite 0)"
    using c6 f0 by (intro nth_equalityI) simp_all
  with closest_eq [OF c5, of self] have "closest self ?km = Inr (replicate 6 (Finite 0))" by simp
  then have "closest_label self ?km = Inr 0"
    by (simp add: closest_label_def argmin_def numeral_eq_Suc)
  with d0 show ?thesis by simp
qed

text \<open>
  C9, amended. When the downsampled frame has one colour, the target is that colour
  and the colour of every centre is the mean colour of its cluster, every centre has
  colour distance 0 from the target and \<^verbatim>\<open>argmin\<close> selects cluster 0. A detection is
  present exactly when cluster 0 has more than 336 of the 4800 pixels; its box is the
  bounding box of the pixels of cluster 0 alone, times 4, and its centre the midpoint of
  top and bottom. The box is the whole frame (0, 236, 0, 316) exactly when cluster 0
  has pixels in the rows 0 and 59 and in the columns 0 and 79.
\<close>

theorem uniform_frame_first_cluster:
  assumes pre: "dowork_pre ext H array"
    and u: "uniform p (resized ext H array)"
    and t: "target_color self = rgb p"
    and c: "centroid_colors (reshaped (resized ext H array)) (fitted ext H array)"
  shows "\<exists>pos out H' labels2.
       (\<forall>j<6. color_distance (target_color self) (cluster_centers (fitted ext H array) ! j) = 0)
     \<and> closest_label self (fitted ext H array) = Inr 0
     \<and> reshape2 60 80 (labels (fitted ext H array)) = Inr labels2
     \<and> dowork self ext H array = Inr ((pos, out), H')
     \<and> (pos \<noteq> None \<longleftrightarrow> 336 < label_count (fitted ext H array) 0)
     \<and> (pos \<noteq> None \<longrightarrow>
          (\<exists>tp bt lf rg.
              contour (sum_labels_vertical labels2 0) (sum_labels_horizontal labels2 0)
                = Inr (tp, bt, lf, rg)
            \<and> pos = Some ((real tp + real bt) / 2)
            \<and> ((tp, bt, lf, rg) = (0, 236, 0, 316) \<longleftrightarrow>
                 sum_labels_vertical labels2 0 ! 0 \<noteq> 0
               \<and> sum_labels_vertical labels2 0 ! 59 \<noteq> 0
               \<and> sum_labels_horizontal labels2 0 ! 0 \<noteq> 0
               \<and> sum_labels_horizontal labels2 0 ! 79 \<noteq> 0)))"
proof -
  let ?km = "fitted ext H array"
  from uniform_closest [OF assms]
  have d0: "\<forall>j<6. color_distance (target_color self) (cluster_centers ?km ! j) = 0"
    and cl0: "closest_label self ?km = Inr 0" by blast+
  from pre show ?thesis
  proof (cases rule: dowork_cases [where self = self])
    case (none cl labels2)
    with cl0 have cl: "cl = 0" by simp
    from none(2) have "sum_list (sum_labels_vertical labels2 cl) = label_count ?km cl"
      by (rule label_count_sum)
    with none(3) cl have "\<not> 336 < label_count ?km 0" by simp
    then have A5: "((None :: real option) \<noteq> None) = (336 < label_count ?km 0)" by simp
    have A6: "(None :: real option) \<noteq> None \<longrightarrow>
          (\<exists>tp bt lf rg.
              contour (sum_labels_vertical labels2 0) (sum_labels_horizontal labels2 0)
                = Inr (tp, bt, lf, rg)
            \<and> None = Some ((real tp + real bt) / 2)
            \<and> ((tp, bt, lf, rg) = (0, 236, 0, 316) \<longleftrightarrow>
                 sum_labels_vertical labels2 0 ! 0 \<noteq> 0
               \<and> sum_labels_vertical labels2 0 ! 59 \<noteq> 0
               \<and> sum_labels_horizontal labels2 0 ! 0 \<noteq> 0
               \<and> sum_labels_horizontal labels2 0 ! 79 \<noteq> 0))" by simp
    from d0 cl0 none(2,4) A5 A6 show ?thesis by blast
  next
    case (some cl labels2 t b l rt drawn)
    with cl0 have cl: "cl = 0" by simp
    let ?slv = "sum_labels_vertical labels2 0" and ?slh = "sum_labels_horizontal labels2 0"
    from some(2) have "sum_list (sum_labels_vertical labels2 cl) = label_count ?km cl"
      by (rule label_count_sum)
    with some(3) cl have cnt: "336 < label_count ?km 0" by simp
    have box: "contour ?slv ?slh = Inr (t, b, l, rt)" using some(4) cl by simp
    have lv: "length ?slv = 60" using some(2) by (simp add: length_sum_labels_vertical reshape2_length)
    have lh: "length ?slh = 80" using some(2) by (simp add: length_sum_labels_horizontal_reshape)
    from contour_spec [OF box] obtain i k j n where
      v: "t = i * 4" "b = k * 4" "l = j * 4" "rt = n * 4"
      and i: "i < 60" "?slv ! i \<noteq> 0" "\<forall>x<i. ?slv ! x = 0"
      and k: "k < 60" "?slv ! k \<noteq> 0" "\<forall>x<60. k < x \<longrightarrow> ?slv ! x = 0"
      and j: "j < 80" "?slh ! j \<noteq> 0" "\<forall>x<j. ?slh ! x = 0"
      and n: "n < 80" "?slh ! n \<noteq> 0" "\<forall>x<80. n < x \<longrightarrow> ?slh ! x = 0"
      unfolding lv lh by blast
    have i0: "i = 0 \<longleftrightarrow> ?slv ! 0 \<noteq> 0" using i by (cases i) auto
    have j0: "j = 0 \<longleftrightarrow> ?slh ! 0 \<noteq> 0" using j by (cases j) auto
    have k59: "k = 59 \<longleftrightarrow> ?slv ! 59 \<noteq> 0"
    proof
      assume "k = 59" with k(2) show "?slv ! 59 \<noteq> 0" by simp
    next
      assume "?slv ! 59 \<noteq> 0"
      with k(3) have "\<not> k < 59" by auto
      with k(1) show "k = 59" by simp
    qed
    have n79: "n = 79 \<longleftrightarrow> ?slh ! 79 \<noteq> 0"
    proof
      assume "n = 79" with n(2) show "?slh ! 79 \<noteq> 0" by simp
    next
      assume "?slh ! 79 \<noteq> 0"
      with n(3) have "\<not> n < 79" by auto
      with n(1) show "n = 79" by simp
    qed
    have full: "(t, b, l, rt) = (0, 236, 0, 316) \<longleftrightarrow>
        ?slv ! 0 \<noteq> 0 \<and> ?slv ! 59 \<noteq> 0 \<and> ?slh ! 0 \<noteq> 0 \<and> ?slh ! 79 \<noteq> 0"
      unfolding i0 [symmetric] j0 [symmetric] k59 [symmetric] n79 [symmetric] v by auto
    have pos: "Some (real (t + b) / 2) = Some ((real t + real b) / 2)" by simp
    have "\<exists>tp bt lf rg. contour ?slv ?slh = Inr (tp, bt, lf, rg)
            \<and> Some (real (t + b) / 2) = Some ((real tp + real bt) / 2)
            \<and> ((tp, bt, lf, rg) = (0, 236, 0, 316) \<longleftrightarrow>
                 ?slv ! 0 \<noteq> 0 \<and> ?slv ! 59 \<noteq> 0 \<and> ?slh ! 0 \<noteq> 0 \<and> ?slh ! 79 \<noteq> 0)"
      using box pos full by blast
    then have A6: "Some (real (t + b) / 2) \<noteq> None \<longrightarrow>
          (\<exists>tp bt lf rg. contour ?slv ?slh = Inr (tp, bt, lf, rg)
            \<and> Some (real (t + b) / 2) = Some ((real tp + real bt) / 2)
            \<and> ((tp, bt, lf, rg) = (0, 236, 0, 316) \<longleftrightarrow>
                 ?slv ! 0 \<noteq> 0 \<and> ?slv ! 59 \<noteq> 0 \<and> ?slh ! 0 \<noteq> 0 \<and> ?slh ! 79 \<noteq> 0))"
      by blast
    have A5: "(Some (real (t + b) / 2) \<noteq> None) = (336 < label_count ?km 0)" using cnt by simp
    from d0 cl0 some(2,8) A5 A6 show ?thesis by blast
  qed
qed

theorem uniform_frame_first_cluster_witness:
  "dowork_pre grid_ext [red_frame] 0
   \<and> uniform (255, 0, 0) (resized grid_ext [red_frame] 0)
   \<and> target_color imageThreadRed = rgb (255, 0, 0)
   \<and> centroid_colors (reshaped (resized grid_ext [red_frame] 0)) (fitted grid_ext [red_frame] 0)
   \<and> closest_label imageThreadRed (fitted grid_ext [red_frame] 0) = Inr 0
   \<and> color_distance (target_color imageThreadRed)
        (cluster_centers (fitted grid_ext [red_frame] 0) ! 5) = 0"
proof -
  have t: "target_color imageThreadRed = rgb (255, 0, 0)"
    by (simp add: imageThreadRed_def rgb_def)
  have c: "centroid_colors (reshaped (resized grid_ext [red_frame] 0))
             (fitted grid_ext [red_frame] 0)"
    using grid_centroid_colors by (simp add: grid_fitted)
  from uniform_frame_first_cluster [OF grid_pre grid_resized_uniform t c]
  have "(\<forall>j<6. color_distance (target_color imageThreadRed)
                 (cluster_centers (fitted grid_ext [red_frame] 0) ! j) = 0)
     \<and> closest_label imageThreadRed (fitted grid_ext [red_frame] 0) = Inr 0"
    by blast
  with grid_pre grid_resized_uniform t c show ?thesis by simp
qed

text \<open>
  C9 fails on the code. The frame is solid red, the target is red, and the clustering
  is the converged one that splits the grid into the six blocks of \<open>grid\<close>, all with a
  red centre. Cluster 0 is
  the block of rows 0 to 29 and columns 0 to 26: the analysis reports the box
  (0, 116, 0, 104) and the centre 58, not a box that spans the frame and not 118.
\<close>

theorem uniform_frame_box_counterexample:
  "[red_frame] ! 0 = solid_frame (255, 0, 0)
   \<and> target_color imageThreadRed = rgb (255, 0, 0)
   \<and> dowork_pre grid_ext [red_frame] 0
   \<and> uniform (255, 0, 0) (resized grid_ext [red_frame] 0)
   \<and> lloyd_fixpoint (reshaped (resized grid_ext [red_frame] 0)) (fitted grid_ext [red_frame] 0)
   \<and> reshape2 60 80 (labels (fitted grid_ext [red_frame] 0)) = Inr grid
   \<and> contour (sum_labels_vertical grid 0) (sum_labels_horizontal grid 0) = Inr (0, 116, 0, 104)
   \<and> (\<exists>out H'. dowork imageThreadRed grid_ext [red_frame] 0 = Inr ((Some 58, out), H'))
   \<and> \<not> (\<exists>out H'. dowork imageThreadRed grid_ext [red_frame] 0 = Inr ((Some 118, out), H'))"
proof -
  have t: "target_color imageThreadRed = rgb (255, 0, 0)"
    by (simp add: imageThreadRed_def rgb_def)
  have r: "reshape2 60 80 (labels (fitted grid_ext [red_frame] 0)) = Inr grid"
    using grid_reshape by (simp add: grid_fitted)
  have c: "lloyd_fixpoint (reshaped (resized grid_ext [red_frame] 0))
             (fitted grid_ext [red_frame] 0)"
    using grid_lloyd_fixpoint by (simp add: grid_fitted)
  from grid_dowork obtain drawn where
    e: "dowork imageThreadRed grid_ext [red_frame] 0
         = Inr ((Some 58, 1), [red_frame, drawn, resized grid_ext [red_frame] 0])" by blast
  then have 1: "\<exists>out H'. dowork imageThreadRed grid_ext [red_frame] 0 = Inr ((Some 58, out), H')"
    by blast
  have 2: "\<not> (\<exists>out H'. dowork imageThreadRed grid_ext [red_frame] 0 = Inr ((Some 118, out), H'))"
    using e by simp
  have 0: "[red_frame] ! 0 = solid_frame (255, 0, 0)" by (simp add: red_frame_def)
  from 0 t grid_pre grid_resized_uniform c r grid_contour 1 2 show ?thesis by blast
qed

end
